theory Spec2Isabelle
  imports Main "HOL-Library.Word"
begin

unbundle bit_operations_syntax

section \<open>Errors\<close>

text \<open>
  Redex reports a violated contract with \<open>always_assert\<close> / \<open>always_assert_log\<close>, which
  throw; \<open>std::vector::at\<close> throws \<open>std::out_of_range\<close>; sparta's \<open>RUNTIME_CHECK\<close> and
  \<open>BOOST_THROW_EXCEPTION\<close> throw \<open>internal_error\<close>. Dereferencing a null pointer is undefined
  behaviour and is modelled as an error of its own.  Every throwing path of the source is an
  \<open>Inl\<close> branch of the model.
\<close>

datatype error =
    AssertionFailure string
  | OutOfRange
  | InternalError
  | NullDereference

section \<open>CFGMutation (libredex/CFGMutation.h)\<close>

text \<open>
  An \<open>IRInstruction*\<close> is used by identity only, so it is an address.  A
  \<open>cfg::InstructionIterator\<close> either is the end sentinel (\<open>None\<close>) or points at an entry
  whose \<open>insn\<close> field is read by \<open>anchor->insn\<close>.
\<close>

type_synonym insn_ptr = nat
type_synonym InstructionIterator = "insn_ptr option"

datatype Insert = Before | After | Replacing

record ChangeSet =
  m_insert_before :: "insn_ptr list"
  m_replace :: "insn_ptr list option"
  m_insert_after :: "insn_ptr list"

text \<open>The default-constructed \<open>ChangeSet\<close> that \<open>m_changes[key]\<close> creates for a new key.\<close>

definition ChangeSet_default :: ChangeSet where
  "ChangeSet_default = \<lparr>m_insert_before = [], m_replace = None, m_insert_after = []\<rparr>"

text \<open>\<open>CFGMutation::ChangeSet::add_change\<close>, lines 121-138.\<close>

fun ChangeSet_add_change :: "Insert \<Rightarrow> insn_ptr list \<Rightarrow> ChangeSet \<Rightarrow> error + ChangeSet" where
  "ChangeSet_add_change Before insns cs =
     Inr (cs\<lparr>m_insert_before := m_insert_before cs @ insns\<rparr>)"
| "ChangeSet_add_change After insns cs =
     Inr (cs\<lparr>m_insert_after := m_insert_after cs @ insns\<rparr>)"
| "ChangeSet_add_change Replacing insns cs =
     (if m_replace cs \<noteq> None
      then Inl (AssertionFailure
        ''It's not possible to have two Replacing instructions for a single anchor.'')
      else Inr (cs\<lparr>m_replace := Some insns\<rparr>))"

text \<open>
  The mutation object: the CFG it edits and the pending changes,
  \<open>std::unordered_map<IRInstruction*, ChangeSet>\<close>.  The CFG is seen through
  \<open>InstructionIterable(m_cfg)\<close>: the instructions in iteration order.
\<close>

record CFGMutation =
  m_cfg :: "insn_ptr list"
  m_changes :: "insn_ptr \<rightharpoonup> ChangeSet"

text \<open>The constructor \<open>CFGMutation(cfg)\<close>, line 119: no pending change.\<close>

definition CFGMutation_new :: "insn_ptr list \<Rightarrow> CFGMutation" where
  "CFGMutation_new cfg = \<lparr>m_cfg = cfg, m_changes = Map.empty\<rparr>"

text \<open>
  \<open>CFGMutation::add_change\<close>, lines 140-145.  \<open>m_changes[anchor->insn]\<close> yields the stored
  \<open>ChangeSet\<close> or a default-constructed one.
\<close>

definition add_change ::
  "Insert \<Rightarrow> InstructionIterator \<Rightarrow> insn_ptr list \<Rightarrow> CFGMutation \<Rightarrow> error + CFGMutation" where
  "add_change where' anchor instructions mut =
     (case anchor of
        None \<Rightarrow> Inl (AssertionFailure ''!anchor.is_end()'')
      | Some insn \<Rightarrow>
          (case ChangeSet_add_change where' instructions
                  (case m_changes mut insn of None \<Rightarrow> ChangeSet_default | Some cs \<Rightarrow> cs) of
             Inl e \<Rightarrow> Inl e
           | Inr cs' \<Rightarrow> Inr (mut\<lparr>m_changes := (m_changes mut)(insn \<mapsto> cs')\<rparr>)))"

text \<open>
  A sequence of \<open>add_change\<close> calls made one after the other on the same mutation; the first
  failing call ends the sequence, as the exception would.
\<close>

fun add_changes ::
  "(Insert \<times> InstructionIterator \<times> insn_ptr list) list \<Rightarrow> CFGMutation \<Rightarrow> error + CFGMutation" where
  "add_changes [] mut = Inr mut"
| "add_changes ((w, anchor, insns) # calls) mut =
     (case add_change w anchor insns mut of
        Inl e \<Rightarrow> Inl e
      | Inr mut' \<Rightarrow> add_changes calls mut')"

text \<open>
  Modelled from the spec: the bodies of \<open>CFGMutation::clear\<close>, \<open>CFGMutation::flush\<close> and
  \<open>ChangeSet::apply\<close> are in CFGMutation.cpp, which is not among the sources; only their
  declarations and doc comments are (CFGMutation.h, lines 78-99).  The spec (4.1) and the
  header say: \<open>clear\<close> discards all pending edits without applying them; \<open>flush\<close> applies all
  pending edits and leaves the log empty; an anchor's edits produce
  \<open>before ++ replace ++ after\<close>, the anchor itself standing between \<open>before\<close> and \<open>after\<close>
  when it is not replaced; \<open>After\<close> on a terminal instruction without \<open>Replacing\<close> fails
  loudly when the change is applied; an anchor that is not in the CFG at flush time has its
  edits dropped silently.  \<open>terminal insn\<close> stands for \<open>is_terminal(insn->opcode())\<close>.
\<close>

definition ChangeSet_apply ::
  "(insn_ptr \<Rightarrow> bool) \<Rightarrow> ChangeSet \<Rightarrow> insn_ptr \<Rightarrow> error + insn_ptr list" where
  "ChangeSet_apply terminal cs anchor =
     (if m_insert_after cs \<noteq> [] \<and> terminal anchor \<and> m_replace cs = None
      then Inl (AssertionFailure ''Insert::After a terminal instruction without Replacing it'')
      else Inr (m_insert_before cs
                @ (case m_replace cs of None \<Rightarrow> [anchor] | Some rs \<Rightarrow> rs)
                @ m_insert_after cs))"

fun apply_changes ::
  "(insn_ptr \<Rightarrow> bool) \<Rightarrow> (insn_ptr \<rightharpoonup> ChangeSet) \<Rightarrow> insn_ptr list \<Rightarrow> error + insn_ptr list" where
  "apply_changes terminal changes [] = Inr []"
| "apply_changes terminal changes (insn # rest) =
     (case changes insn of
        None \<Rightarrow>
          (case apply_changes terminal changes rest of
             Inl e \<Rightarrow> Inl e
           | Inr rest' \<Rightarrow> Inr (insn # rest'))
      | Some cs \<Rightarrow>
          (case ChangeSet_apply terminal cs insn of
             Inl e \<Rightarrow> Inl e
           | Inr new \<Rightarrow>
               (case apply_changes terminal (changes(insn := None)) rest of
                  Inl e \<Rightarrow> Inl e
                | Inr rest' \<Rightarrow> Inr (new @ rest'))))"

definition flush :: "(insn_ptr \<Rightarrow> bool) \<Rightarrow> CFGMutation \<Rightarrow> error + CFGMutation" where
  "flush terminal mut =
     (case apply_changes terminal (m_changes mut) (m_cfg mut) of
        Inl e \<Rightarrow> Inl e
      | Inr cfg' \<Rightarrow> Inr \<lparr>m_cfg = cfg', m_changes = Map.empty\<rparr>)"

definition clear :: "CFGMutation \<Rightarrow> CFGMutation" where
  "clear mut = mut\<lparr>m_changes := Map.empty\<rparr>"

text \<open>The pending \<open>ChangeSet\<close> of an anchor, as \<open>m_changes[insn]\<close> would read it.\<close>

definition pending :: "CFGMutation \<Rightarrow> insn_ptr \<Rightarrow> ChangeSet" where
  "pending mut insn = (case m_changes mut insn of None \<Rightarrow> ChangeSet_default | Some cs \<Rightarrow> cs)"

text \<open>
  The spec's wording of the accumulation (4.1): for one anchor, all \<open>Before\<close> lists
  concatenated in call order, the \<open>Replacing\<close> list if any, all \<open>After\<close> lists concatenated
  in call order.  These follow the spec, to be compared with what \<open>add_change\<close> stores.
\<close>

definition calls_on ::
  "Insert \<Rightarrow> insn_ptr \<Rightarrow> (Insert \<times> InstructionIterator \<times> insn_ptr list) list \<Rightarrow> insn_ptr list list" where
  "calls_on w a calls = map (\<lambda>(w', anchor, xs). xs) (filter (\<lambda>(w', anchor, xs). w' = w \<and> anchor = Some a) calls)"

definition spec_before :: "insn_ptr \<Rightarrow> (Insert \<times> InstructionIterator \<times> insn_ptr list) list \<Rightarrow> insn_ptr list" where
  "spec_before a calls = concat (calls_on Before a calls)"

definition spec_after :: "insn_ptr \<Rightarrow> (Insert \<times> InstructionIterator \<times> insn_ptr list) list \<Rightarrow> insn_ptr list" where
  "spec_after a calls = concat (calls_on After a calls)"

definition spec_replace :: "insn_ptr \<Rightarrow> (Insert \<times> InstructionIterator \<times> insn_ptr list) list \<Rightarrow> insn_ptr list option" where
  "spec_replace a calls = (case calls_on Replacing a calls of [] \<Rightarrow> None | rs # _ \<Rightarrow> Some rs)"

section \<open>Concurrent containers (libredex/ConcurrentContainers.h)\<close>

text \<open>
  A concurrent container is the array \<open>Container m_slots[n_slots]\<close> of STL hash maps or
  sets; \<open>n_slots\<close> is the length of that array (a template constant, \<open>static_assert\<close>ed
  positive) and \<open>Hash\<close> the hash functor.  Every operation below takes the lock of one slot
  for its whole body, so without interleaving it is the sequential function given here.  The
  STL containers are library code: \<open>std::unordered_map\<close> is a finite map, whose \<open>insert\<close>
  adds the entry only when the key is absent and reports whether it did, whose
  \<open>operator[]\<close> assignment overwrites, and whose \<open>at\<close> throws \<open>std::out_of_range\<close> on an
  absent key; \<open>std::unordered_set\<close> is a set.
\<close>

type_synonym ('k, 'v) ConcurrentMapContainer = "('k \<rightharpoonup> 'v) list"
type_synonym 'k ConcurrentSet = "'k set list"

definition unordered_map_insert :: "'k \<times> 'v \<Rightarrow> ('k \<rightharpoonup> 'v) \<Rightarrow> ('k \<rightharpoonup> 'v) \<times> bool" where
  "unordered_map_insert entry m =
     (if m (fst entry) = None then (m(fst entry \<mapsto> snd entry), True) else (m, False))"

definition unordered_set_insert :: "'k \<Rightarrow> 'k set \<Rightarrow> 'k set \<times> bool" where
  "unordered_set_insert key s = (if key \<in> s then (s, False) else (insert key s, True))"

text \<open>\<open>ConcurrentContainer::count\<close>, lines 124-128, for maps and for sets.\<close>

definition ConcurrentMapContainer_count ::
  "('k \<Rightarrow> nat) \<Rightarrow> 'k \<Rightarrow> ('k, 'v) ConcurrentMapContainer \<Rightarrow> nat" where
  "ConcurrentMapContainer_count Hash key m_slots =
     (let slot = Hash key mod length m_slots
      in if (m_slots ! slot) key = None then 0 else 1)"

definition ConcurrentSet_count :: "('k \<Rightarrow> nat) \<Rightarrow> 'k \<Rightarrow> 'k ConcurrentSet \<Rightarrow> nat" where
  "ConcurrentSet_count Hash key m_slots =
     (let slot = Hash key mod length m_slots
      in if key \<in> m_slots ! slot then 1 else 0)"

text \<open>\<open>ConcurrentMapContainer::at\<close>, lines 208-212.\<close>

definition ConcurrentMapContainer_at ::
  "('k \<Rightarrow> nat) \<Rightarrow> 'k \<Rightarrow> ('k, 'v) ConcurrentMapContainer \<Rightarrow> error + 'v" where
  "ConcurrentMapContainer_at Hash key m_slots =
     (let slot = Hash key mod length m_slots
      in case (m_slots ! slot) key of None \<Rightarrow> Inl OutOfRange | Some v \<Rightarrow> Inr v)"

text \<open>
  \<open>ConcurrentMapContainer::insert\<close>, lines 239-244: the result is the Boolean it returns and
  the container it leaves.
\<close>

definition ConcurrentMapContainer_insert ::
  "('k \<Rightarrow> nat) \<Rightarrow> 'k \<times> 'v \<Rightarrow> ('k, 'v) ConcurrentMapContainer
     \<Rightarrow> bool \<times> ('k, 'v) ConcurrentMapContainer" where
  "ConcurrentMapContainer_insert Hash entry m_slots =
     (let slot = Hash (fst entry) mod length m_slots;
          (map', inserted) = unordered_map_insert entry (m_slots ! slot)
      in (inserted, m_slots[slot := map']))"

text \<open>\<open>ConcurrentMapContainer::insert_or_assign\<close>, lines 268-273.\<close>

definition ConcurrentMapContainer_insert_or_assign ::
  "('k \<Rightarrow> nat) \<Rightarrow> 'k \<times> 'v \<Rightarrow> ('k, 'v) ConcurrentMapContainer \<Rightarrow> ('k, 'v) ConcurrentMapContainer" where
  "ConcurrentMapContainer_insert_or_assign Hash entry m_slots =
     (let slot = Hash (fst entry) mod length m_slots
      in m_slots[slot := (m_slots ! slot)(fst entry \<mapsto> snd entry)])"

text \<open>\<open>ConcurrentSet::insert\<close>, lines 346-351.\<close>

definition ConcurrentSet_insert ::
  "('k \<Rightarrow> nat) \<Rightarrow> 'k \<Rightarrow> 'k ConcurrentSet \<Rightarrow> bool \<times> 'k ConcurrentSet" where
  "ConcurrentSet_insert Hash key m_slots =
     (let slot = Hash key mod length m_slots;
          (set', inserted) = unordered_set_insert key (m_slots ! slot)
      in (inserted, m_slots[slot := set']))"

section \<open>CFG inliner, registers (service/method-inliner/CFGInliner.cpp)\<close>

text \<open>
  \<open>reg_t\<close> is \<open>uint32_t\<close>: register arithmetic wraps around.  An instruction is seen
  through the accessors the inliner uses: \<open>opcode()\<close>, \<open>srcs_size()\<close>/\<open>src(i)\<close>/\<open>set_src\<close>,
  \<open>has_dest()\<close>/\<open>dest()\<close>/\<open>set_dest\<close>; \<open>has_dest()\<close> is \<open>dest \<noteq> None\<close>.  Of the opcodes, the
  inliner distinguishes the load-param pseudo-opcodes, the returns, the moves it
  creates and \<open>nop\<close>; every other opcode is \<open>OPCODE_OTHER\<close>, whose number tells apart
  the opcodes and their non-register operands (type, field, method), which the inliner never
  reads.
\<close>

type_synonym reg_t = "32 word"

datatype IROpcode =
    OPCODE_NOP
  | OPCODE_MOVE | OPCODE_MOVE_WIDE | OPCODE_MOVE_OBJECT
  | OPCODE_RETURN_VOID | OPCODE_RETURN | OPCODE_RETURN_WIDE | OPCODE_RETURN_OBJECT
  | IOPCODE_LOAD_PARAM | IOPCODE_LOAD_PARAM_OBJECT | IOPCODE_LOAD_PARAM_WIDE
  | OPCODE_OTHER nat

record IRInstruction =
  opcode :: IROpcode
  srcs :: "reg_t list"
  dest :: "reg_t option"

text \<open>
  Modelled from the spec: IROpcode.h is not among the sources.  \<open>is_return\<close>,
  \<open>opcode::is_load_param\<close> and \<open>opcode::load_param_to_move\<close> are the opcode tables the
  inliner calls; the spec (4.2, steps 7 and 8) says that load-param pseudo-instructions become
  register-to-register moves and that return instructions become moves.  The move keeps the
  kind (plain, wide, object) of the load-param; another opcode is a contract violation.
\<close>

fun is_return :: "IROpcode \<Rightarrow> bool" where
  "is_return OPCODE_RETURN_VOID = True"
| "is_return OPCODE_RETURN = True"
| "is_return OPCODE_RETURN_WIDE = True"
| "is_return OPCODE_RETURN_OBJECT = True"
| "is_return _ = False"

fun is_load_param :: "IROpcode \<Rightarrow> bool" where
  "is_load_param IOPCODE_LOAD_PARAM = True"
| "is_load_param IOPCODE_LOAD_PARAM_OBJECT = True"
| "is_load_param IOPCODE_LOAD_PARAM_WIDE = True"
| "is_load_param _ = False"

fun load_param_to_move :: "IROpcode \<Rightarrow> error + IROpcode" where
  "load_param_to_move IOPCODE_LOAD_PARAM = Inr OPCODE_MOVE"
| "load_param_to_move IOPCODE_LOAD_PARAM_OBJECT = Inr OPCODE_MOVE_OBJECT"
| "load_param_to_move IOPCODE_LOAD_PARAM_WIDE = Inr OPCODE_MOVE_WIDE"
| "load_param_to_move _ = Inl (AssertionFailure ''Expected param op'')"

text \<open>\<open>CFGInliner::return_to_move\<close>, lines 438-452.\<close>

fun return_to_move :: "IROpcode \<Rightarrow> error + IROpcode" where
  "return_to_move OPCODE_RETURN_VOID = Inr OPCODE_NOP"
| "return_to_move OPCODE_RETURN = Inr OPCODE_MOVE"
| "return_to_move OPCODE_RETURN_WIDE = Inr OPCODE_MOVE_WIDE"
| "return_to_move OPCODE_RETURN_OBJECT = Inr OPCODE_MOVE_OBJECT"
| "return_to_move _ = Inl (AssertionFailure ''Expected return op'')"

text \<open>
  The register passes run over \<open>cfg::InstructionIterable(*callee)\<close>: the callee's
  instructions in iteration order, the entry block first.  A CFG is seen here as that list of
  instructions and its \<open>registers_size\<close>; blocks and edges are the subject of the next
  section.  Splitting blocks, setting debug positions, \<open>steal_contents\<close> and \<open>connect_cfgs\<close>
  move entries between blocks and add edges, and leave every instruction's registers alone.
\<close>

record ControlFlowGraph =
  insns :: "IRInstruction list"
  registers_size :: reg_t

text \<open>\<open>CFGInliner::remap_registers\<close>, lines 197-208; \<open>remap_insn\<close> is the loop body.\<close>

definition remap_insn :: "reg_t \<Rightarrow> IRInstruction \<Rightarrow> IRInstruction" where
  "remap_insn caller_regs_size insn =
     insn\<lparr>srcs := map (\<lambda>r. r + caller_regs_size) (srcs insn),
          dest := map_option (\<lambda>r. r + caller_regs_size) (dest insn)\<rparr>"

definition remap_registers :: "IRInstruction list \<Rightarrow> reg_t \<Rightarrow> IRInstruction list" where
  "remap_registers callee caller_regs_size = map (remap_insn caller_regs_size) callee"

text \<open>
  Modelled from the spec: \<open>ControlFlowGraph::get_param_instructions\<close> is in ControlFlow.cpp,
  not among the sources.  It yields the load-param pseudo-instructions, which stand at the
  start of the method's entry block (spec 4.2, step 7).
\<close>

definition get_param_instructions :: "IRInstruction list \<Rightarrow> IRInstruction list" where
  "get_param_instructions callee = takeWhile (\<lambda>insn. is_load_param (opcode insn)) callee"

text \<open>
  \<open>CFGInliner::move_arg_regs\<close>, lines 282-298.  \<open>move_params\<close> is the loop over
  \<open>param_insns\<close> with its counter \<open>i\<close>, each iteration in the order of the source: the
  opcode table (line 290), \<open>srcs.at(i)\<close> (line 291), which throws \<open>std::out_of_range\<close> when
  \<open>i\<close> is not below \<open>srcs.size()\<close>, and \<open>load->dest()\<close> (line 292), which asserts
  \<open>has_dest()\<close>.  The moves replace the load-params in place.
\<close>

fun move_params :: "IRInstruction list \<Rightarrow> reg_t list \<Rightarrow> nat \<Rightarrow> error + IRInstruction list" where
  "move_params [] arg_srcs i = Inr []"
| "move_params (load # param_insns) arg_srcs i =
     (case load_param_to_move (opcode load) of
        Inl e \<Rightarrow> Inl e
      | Inr op \<Rightarrow>
          if i < length arg_srcs
          then (case dest load of
                  None \<Rightarrow> Inl (AssertionFailure ''has_dest()'')
                | Some d \<Rightarrow>
                    (case move_params param_insns arg_srcs (i + 1) of
                       Inl e \<Rightarrow> Inl e
                     | Inr moves \<Rightarrow>
                         Inr (\<lparr>opcode = op, srcs = [arg_srcs ! i], dest = Some d\<rparr> # moves)))
          else Inl OutOfRange)"

definition move_arg_regs :: "IRInstruction list \<Rightarrow> reg_t list \<Rightarrow> error + IRInstruction list" where
  "move_arg_regs callee arg_srcs =
     (let param_insns = get_param_instructions callee
      in case move_params param_insns arg_srcs 0 of
           Inl e \<Rightarrow> Inl e
         | Inr moves \<Rightarrow> Inr (moves @ drop (length param_insns) callee))"

text \<open>
  \<open>CFGInliner::move_return_reg\<close>, lines 303-329: a return becomes a move into \<open>ret_reg\<close>,
  or is deleted when it is \<open>return-void\<close> or there is no \<open>ret_reg\<close>.  \<open>ret->src(0)\<close> on an
  instruction without sources is a failed assertion of \<open>IRInstruction::src\<close>.
\<close>

fun move_return_reg :: "IRInstruction list \<Rightarrow> reg_t option \<Rightarrow> error + IRInstruction list" where
  "move_return_reg [] ret_reg = Inr []"
| "move_return_reg (insn # rest) ret_reg =
     (if is_return (opcode insn)
      then (case return_to_move (opcode insn) of
              Inl e \<Rightarrow> Inl e
            | Inr op \<Rightarrow>
                if op \<noteq> OPCODE_NOP \<and> ret_reg \<noteq> None
                then (case srcs insn of
                        [] \<Rightarrow> Inl (AssertionFailure ''i < srcs_size()'')
                      | src0 # _ \<Rightarrow>
                          (case move_return_reg rest ret_reg of
                             Inl e \<Rightarrow> Inl e
                           | Inr rest' \<Rightarrow>
                               Inr (\<lparr>opcode = op, srcs = [src0], dest = ret_reg\<rparr> # rest')))
                else move_return_reg rest ret_reg)
      else (case move_return_reg rest ret_reg of
              Inl e \<Rightarrow> Inl e
            | Inr rest' \<Rightarrow> Inr (insn # rest')))"

text \<open>
  The caller as \<open>inline_cfg\<close> sees it from \<open>inline_site\<close>, one field for each thing the
  code reads: whether \<open>&inline_site.cfg() == caller\<close> (line 35); \<open>caller->editable()\<close>; the
  call instruction \<open>inline_site->insn\<close>; whether it is the first and whether it is the last
  instruction of \<open>inline_site.block()\<close>; whether that block \<open>goes_to()\<close> another one; whether
  the call \<open>has_move_result_any()\<close>; the instruction \<open>caller->move_result_of(inline_site)\<close>
  points at (\<open>None\<close> for the end iterator); every other instruction of the caller; whether
  \<open>caller->m_blocks\<close> holds a block (line 216); and the caller's \<open>registers_size\<close>.
  \<open>move_result_of\<close>, \<open>goes_to\<close> and \<open>has_move_result_any\<close> are ControlFlow.cpp's and
  IRInstruction.h's, not among the sources: what they return is part of the input.
\<close>

record CallSite =
  caller_others :: "IRInstruction list"
  site_insn :: IRInstruction
  site_cfg_is_caller :: bool
  caller_editable :: bool
  site_first_of_block :: bool
  site_last_of_block :: bool
  site_block_goes_to :: bool
  site_has_move_result_any :: bool
  site_move_result :: "IRInstruction option"
  caller_has_blocks :: bool
  caller_registers_size :: reg_t

definition caller_insns :: "CallSite \<Rightarrow> IRInstruction list" where
  "caller_insns cs =
     caller_others cs @ [site_insn cs]
     @ (case site_move_result cs of None \<Rightarrow> [] | Some mr \<Rightarrow> [mr])"

text \<open>
  The plugin, \<open>CFGInlinerPlugin\<close> (declared in CFGInliner.h, not among the sources), through
  the hooks \<open>inline_cfg\<close> calls.  The two update hooks may edit caller and callee; the second
  returns whether the register count must be recomputed.
\<close>

record CFGInlinerPlugin =
  inline_after :: bool
  inline_srcs :: "reg_t list option"
  reg_for_return :: "reg_t option"
  remove_inline_site :: bool
  update_before_reg_remap :: "CallSite \<times> ControlFlowGraph \<Rightarrow> CallSite \<times> ControlFlowGraph"
  update_after_reg_remap :: "CallSite \<times> ControlFlowGraph \<Rightarrow> (CallSite \<times> ControlFlowGraph) \<times> bool"

text \<open>
  Modelled from the spec: \<open>ControlFlowGraph::split_block\<close> is in ControlFlow.cpp, not among
  the sources.  The spec (4.2, step 4) says that the caller's block is split at the call site
  so that the call becomes the first or the last instruction of its own block; the block that
  is cut keeps its first part and goes to the new block, which holds the rest.  Splitting
  after the call therefore leaves the call last in a block that goes to another one.
\<close>

definition split_block :: "CallSite \<Rightarrow> CallSite" where
  "split_block caller = caller\<lparr>site_last_of_block := True, site_block_goes_to := True\<rparr>"

text \<open>
  \<open>CFGInliner::maybe_split_block\<close>, lines 155-171.  The assertion of line 158 holds: the
  block of \<open>it\<close> contains the call.
\<close>

definition maybe_split_block :: "CallSite \<Rightarrow> error + CallSite" where
  "maybe_split_block caller =
     (if \<not> caller_editable caller then Inl (AssertionFailure ''caller->editable()'')
      else (let caller' = (if \<not> site_last_of_block caller then split_block caller else caller)
            in if \<not> site_block_goes_to caller'
               then Inl (AssertionFailure ''goto_block != nullptr'')
               else Inr caller'))"

text \<open>
  \<open>CFGInliner::maybe_split_block_before\<close>, lines 174-192.  When the call is not the first
  instruction of its block, a \<open>nop\<close> is put before it and the block is split after the
  \<open>nop\<close>: the call is then the first instruction of the new block, to which the old block
  goes, so the assertion of line 190 holds.
\<close>

definition maybe_split_block_before :: "CallSite \<Rightarrow> error + CallSite" where
  "maybe_split_block_before caller =
     (if \<not> caller_editable caller then Inl (AssertionFailure ''caller->editable()'')
      else if site_first_of_block caller then Inr caller
      else Inr (caller\<lparr>caller_others :=
                         caller_others caller @ [\<lparr>opcode = OPCODE_NOP, srcs = [], dest = None\<rparr>],
                       site_first_of_block := True\<rparr>))"

text \<open>
  The steps of \<open>CFGInliner::inline_cfg\<close> (lines 31-141) that touch instructions, each
  under the lines it models.  Lines 62-64: the split, after or before the call.
\<close>

definition maybe_split :: "CFGInlinerPlugin \<Rightarrow> CallSite \<Rightarrow> error + CallSite" where
  "maybe_split plugin caller =
     (if inline_after plugin then maybe_split_block caller else maybe_split_block_before caller)"

text \<open>Lines 92-95: the plugin's alternate sources, or the sources of the call.\<close>

definition inline_args :: "CFGInlinerPlugin \<Rightarrow> CallSite \<Rightarrow> reg_t list" where
  "inline_args plugin caller =
     (case inline_srcs plugin of Some alt_srcs \<Rightarrow> alt_srcs | None \<Rightarrow> srcs (site_insn caller))"

text \<open>
  Lines 97-106: the register that receives the callee's result.  \<open>move_res->insn->dest()\<close>
  asserts \<open>has_dest()\<close>.
\<close>

definition return_register :: "CFGInlinerPlugin \<Rightarrow> CallSite \<Rightarrow> error + reg_t option" where
  "return_register plugin caller =
     (if site_has_move_result_any caller
      then (case reg_for_return plugin of
              Some r \<Rightarrow> Inr (Some r)
            | None \<Rightarrow>
                (case site_move_result caller of
                   None \<Rightarrow> Inr None
                 | Some move_res \<Rightarrow>
                     (case dest move_res of
                        None \<Rightarrow> Inl (AssertionFailure ''has_dest()'')
                      | Some d \<Rightarrow> Inr (Some d))))
      else Inr (reg_for_return plugin))"

text \<open>Lines 107-111: the move-result is deleted when the call site is to be removed.\<close>

definition remove_move_result :: "CFGInlinerPlugin \<Rightarrow> CallSite \<Rightarrow> CallSite" where
  "remove_move_result plugin caller =
     (if site_has_move_result_any caller \<and> remove_inline_site plugin
      then caller\<lparr>site_move_result := None\<rparr>
      else caller)"

text \<open>
  Lines 87-114, between the two hooks: the callee's registers are shifted by the caller's
  \<open>registers_size\<close>, the load-params become moves from the argument registers, the returns
  become moves into the result register.
\<close>

definition register_passes ::
  "CFGInlinerPlugin \<Rightarrow> CallSite \<Rightarrow> ControlFlowGraph \<Rightarrow> error + CallSite \<times> ControlFlowGraph" where
  "register_passes plugin caller callee =
     (let caller_regs_size = caller_registers_size caller
      in case move_arg_regs (remap_registers (insns callee) caller_regs_size)
                (inline_args plugin caller) of
           Inl e \<Rightarrow> Inl e
         | Inr with_moves \<Rightarrow>
             (case return_register plugin caller of
                Inl e \<Rightarrow> Inl e
              | Inr return_reg \<Rightarrow>
                  (case move_return_reg with_moves return_reg of
                     Inl e \<Rightarrow> Inl e
                   | Inr with_returns \<Rightarrow>
                       Inr (remove_move_result plugin caller, callee\<lparr>insns := with_returns\<rparr>))))"

text \<open>
  Lines 116-135, from what \<open>update_after_reg_remap\<close> returns.  \<open>steal_contents\<close> (lines
  213-230) asserts that the caller has a block and puts the callee's blocks behind the
  caller's; the register count is recomputed or set to the sum of the two sizes;
  \<open>remove_insn(inline_site)\<close> deletes the call when the plugin asks for it.  \<open>recompute\<close>
  stands for \<open>ControlFlowGraph::recompute_registers_size\<close>, not among the sources.
\<close>

definition merge_and_finish ::
  "CFGInlinerPlugin \<Rightarrow> (IRInstruction list \<Rightarrow> reg_t) \<Rightarrow> reg_t \<Rightarrow> reg_t
     \<Rightarrow> (CallSite \<times> ControlFlowGraph) \<times> bool \<Rightarrow> error + ControlFlowGraph" where
  "merge_and_finish plugin recompute caller_regs_size callee_regs_size hooked =
     (case hooked of
        ((caller, callee), need_reg_size_recompute) \<Rightarrow>
          if \<not> caller_has_blocks caller
          then Inl (AssertionFailure ''!caller->m_blocks.empty()'')
          else Inr \<lparr>insns =
                      (if remove_inline_site plugin
                       then caller_others caller
                            @ (case site_move_result caller of None \<Rightarrow> [] | Some mr \<Rightarrow> [mr])
                            @ insns callee
                       else caller_insns caller @ insns callee),
                    registers_size =
                      (if need_reg_size_recompute
                       then recompute (caller_insns caller @ insns callee)
                       else caller_regs_size + callee_regs_size)\<rparr>)"

text \<open>\<open>CFGInliner::inline_cfg\<close>: the steps in the order of the source.\<close>

definition inline_cfg ::
  "CFGInlinerPlugin \<Rightarrow> (IRInstruction list \<Rightarrow> reg_t) \<Rightarrow> CallSite \<Rightarrow> ControlFlowGraph
     \<Rightarrow> error + ControlFlowGraph" where
  "inline_cfg plugin recompute caller callee_orig =
     (if \<not> site_cfg_is_caller caller
      then Inl (AssertionFailure ''&inline_site.cfg() == caller'')
      else (case maybe_split plugin caller of
              Inl e \<Rightarrow> Inl e
            | Inr split \<Rightarrow>
                (let (caller1, callee1) = update_before_reg_remap plugin (split, callee_orig);
                     callee_regs_size = registers_size callee1;
                     caller_regs_size = caller_registers_size caller1
                 in case register_passes plugin caller1 callee1 of
                      Inl e \<Rightarrow> Inl e
                    | Inr staged \<Rightarrow>
                        merge_and_finish plugin recompute caller_regs_size callee_regs_size
                          (update_after_reg_remap plugin staged))))"

text \<open>
  Modelled from the spec: the base class \<open>CFGInlinerPlugin\<close> that the three-argument
  \<open>inline_cfg\<close> (lines 24-29) instantiates is declared in CFGInliner.h, not among the
  sources.  The spec (4.2) gives its defaults: code is placed after the call, no alternate
  argument or result register, the call instruction is removed, and the hooks do nothing.
\<close>

definition base_plugin :: CFGInlinerPlugin where
  "base_plugin =
     \<lparr>inline_after = True, inline_srcs = None, reg_for_return = None,
      remove_inline_site = True,
      update_before_reg_remap = (\<lambda>x. x),
      update_after_reg_remap = (\<lambda>x. (x, False))\<rparr>"

subsection \<open>The object inliner's test (test/unit/ObjectInlinerTest.cpp)\<close>

text \<open>
  \<open>ObjectInlinerTest.class_inline_with_fields_and_swaps\<close>, lines 293-365: the caller, the
  call site \<open>invoke-virtual (v3 v2)\<close> and the callee that the test hands to \<open>inline_cfg\<close>.
  The caller is one block that ends with \<open>return v3\<close>; the call is neither its first nor its
  last instruction and has no move-result after it.  The numbers of \<open>OPCODE_OTHER\<close> stand for
  1 \<open>new-instance LFoo;\<close>, 2 \<open>move-result-pseudo-object\<close>, 3 \<open>iput LFoo;.prop:I\<close>,
  4 \<open>new-instance LBar;\<close>, 5 \<open>invoke-virtual LBar;.child\<close>, 6 \<open>iget LFoo;.prop:I\<close>,
  7 \<open>move-result-pseudo\<close>, 8 \<open>iget LFoo;.nonprop:I\<close>, 9 \<open>new-instance LBaz;\<close>,
  10 \<open>iput LBaz;.wide:I\<close>, 11 \<open>iput LBaz;.push:I\<close>, 12 \<open>iget LBoo;.nonprop:I\<close>.
\<close>

definition test_caller :: CallSite where
  "test_caller =
     \<lparr>caller_others =
        [\<lparr>opcode = IOPCODE_LOAD_PARAM, srcs = [], dest = Some 0\<rparr>,
         \<lparr>opcode = IOPCODE_LOAD_PARAM, srcs = [], dest = Some 1\<rparr>,
         \<lparr>opcode = OPCODE_OTHER 1, srcs = [], dest = None\<rparr>,
         \<lparr>opcode = OPCODE_OTHER 2, srcs = [], dest = Some 2\<rparr>,
         \<lparr>opcode = OPCODE_OTHER 3, srcs = [1, 2], dest = None\<rparr>,
         \<lparr>opcode = OPCODE_OTHER 4, srcs = [], dest = None\<rparr>,
         \<lparr>opcode = OPCODE_OTHER 2, srcs = [], dest = Some 3\<rparr>,
         \<lparr>opcode = OPCODE_RETURN, srcs = [3], dest = None\<rparr>],
      site_insn = \<lparr>opcode = OPCODE_OTHER 5, srcs = [3, 2], dest = None\<rparr>,
      site_cfg_is_caller = True, caller_editable = True,
      site_first_of_block = False, site_last_of_block = False, site_block_goes_to = False,
      site_has_move_result_any = True, site_move_result = None,
      caller_has_blocks = True, caller_registers_size = 4\<rparr>"

definition test_callee :: ControlFlowGraph where
  "test_callee =
     \<lparr>insns =
        [\<lparr>opcode = IOPCODE_LOAD_PARAM, srcs = [], dest = Some 0\<rparr>,
         \<lparr>opcode = OPCODE_OTHER 6, srcs = [0], dest = None\<rparr>,
         \<lparr>opcode = OPCODE_OTHER 7, srcs = [], dest = Some 1\<rparr>,
         \<lparr>opcode = OPCODE_OTHER 8, srcs = [0], dest = None\<rparr>,
         \<lparr>opcode = OPCODE_OTHER 7, srcs = [], dest = Some 3\<rparr>,
         \<lparr>opcode = OPCODE_OTHER 9, srcs = [], dest = None\<rparr>,
         \<lparr>opcode = OPCODE_OTHER 2, srcs = [], dest = Some 2\<rparr>,
         \<lparr>opcode = OPCODE_OTHER 10, srcs = [1, 2], dest = None\<rparr>,
         \<lparr>opcode = OPCODE_OTHER 11, srcs = [1, 3], dest = None\<rparr>,
         \<lparr>opcode = OPCODE_RETURN, srcs = [2], dest = None\<rparr>],
      registers_size = 4\<rparr>"

text \<open>
  Modelled from the spec: \<open>ObjectInlinePlugin\<close>, which the test passes to \<open>inline_cfg\<close>, is
  not among the sources.  The spec (4.2) says that the plugin decides whether code goes
  before or after the call, supplies alternate argument and result registers, and can run
  extra edits before and after the register remapping.  The test constructs it with the
  argument registers \<open>{0}\<close> and the result register 2, and the code it expects (lines
  325-349) keeps the call and has the inlined code before it.  The edits are those that turn
  the test's input into that expected code: before the remapping, the caller's
  \<open>iput v1 v2 LFoo;.prop\<close> becomes \<open>move v4 v1\<close> into a register newly allocated in the
  caller; after it, the callee's \<open>iget\<close> of that field and its move-result become
  \<open>move v6 v4\<close>, and the \<open>iget\<close> of the swapped field reads the caller's \<open>v0\<close>.
\<close>

definition iput_to_move :: "reg_t \<Rightarrow> IRInstruction \<Rightarrow> IRInstruction" where
  "iput_to_move temp insn =
     (if opcode insn = OPCODE_OTHER 3
      then \<lparr>opcode = OPCODE_MOVE, srcs = [hd (srcs insn)], dest = Some temp\<rparr>
      else insn)"

definition iget_to_move :: "IRInstruction \<Rightarrow> IRInstruction list" where
  "iget_to_move insn =
     (if opcode insn = OPCODE_OTHER 6 then []
      else if opcode insn = OPCODE_OTHER 7 \<and> dest insn = Some 6
      then [\<lparr>opcode = OPCODE_MOVE, srcs = [4], dest = Some 6\<rparr>]
      else if opcode insn = OPCODE_OTHER 8
      then [\<lparr>opcode = OPCODE_OTHER 12, srcs = [0], dest = None\<rparr>]
      else [insn])"

definition test_plugin :: CFGInlinerPlugin where
  "test_plugin =
     \<lparr>inline_after = False, inline_srcs = Some [0], reg_for_return = Some 2,
      remove_inline_site = False,
      update_before_reg_remap =
        (\<lambda>(caller, callee).
           (caller\<lparr>caller_others :=
                     map (iput_to_move (caller_registers_size caller)) (caller_others caller),
                   caller_registers_size := caller_registers_size caller + 1\<rparr>,
            callee)),
      update_after_reg_remap =
        (\<lambda>(caller, callee).
           ((caller, callee\<lparr>insns := concat (map iget_to_move (insns callee))\<rparr>), False))\<rparr>"

text \<open>
  The code the test expects (lines 325-349), the caller's instructions first and the inlined
  ones after them, and the number of registers it uses.
\<close>

definition test_expected :: ControlFlowGraph where
  "test_expected =
     \<lparr>insns =
        [\<lparr>opcode = IOPCODE_LOAD_PARAM, srcs = [], dest = Some 0\<rparr>,
         \<lparr>opcode = IOPCODE_LOAD_PARAM, srcs = [], dest = Some 1\<rparr>,
         \<lparr>opcode = OPCODE_OTHER 1, srcs = [], dest = None\<rparr>,
         \<lparr>opcode = OPCODE_OTHER 2, srcs = [], dest = Some 2\<rparr>,
         \<lparr>opcode = OPCODE_MOVE, srcs = [1], dest = Some 4\<rparr>,
         \<lparr>opcode = OPCODE_OTHER 4, srcs = [], dest = None\<rparr>,
         \<lparr>opcode = OPCODE_OTHER 2, srcs = [], dest = Some 3\<rparr>,
         \<lparr>opcode = OPCODE_RETURN, srcs = [3], dest = None\<rparr>,
         \<lparr>opcode = OPCODE_NOP, srcs = [], dest = None\<rparr>,
         \<lparr>opcode = OPCODE_OTHER 5, srcs = [3, 2], dest = None\<rparr>,
         \<lparr>opcode = OPCODE_MOVE, srcs = [0], dest = Some 5\<rparr>,
         \<lparr>opcode = OPCODE_MOVE, srcs = [4], dest = Some 6\<rparr>,
         \<lparr>opcode = OPCODE_OTHER 12, srcs = [0], dest = None\<rparr>,
         \<lparr>opcode = OPCODE_OTHER 7, srcs = [], dest = Some 8\<rparr>,
         \<lparr>opcode = OPCODE_OTHER 9, srcs = [], dest = None\<rparr>,
         \<lparr>opcode = OPCODE_OTHER 2, srcs = [], dest = Some 7\<rparr>,
         \<lparr>opcode = OPCODE_OTHER 10, srcs = [6, 7], dest = None\<rparr>,
         \<lparr>opcode = OPCODE_OTHER 11, srcs = [6, 8], dest = None\<rparr>,
         \<lparr>opcode = OPCODE_MOVE, srcs = [7], dest = Some 2\<rparr>],
      registers_size = 9\<rparr>"

subsection \<open>Names for what the theorems say\<close>

text \<open>
  \<open>registers_of\<close>: the registers an instruction references; \<open>registers_in\<close>: those of a
  list of instructions.  \<open>split_site\<close>: the caller after the split of lines 62-64.
  \<open>inline_return_reg\<close>: the value of \<open>return_register\<close> when the move-result has a
  destination.  \<open>returns_have_src\<close>: every return of the callee other than \<open>return-void\<close> has
  the source register it returns.  \<open>adds_no_register\<close>: a hook's result references no register
  that its arguments did not reference.
\<close>

definition registers_of :: "IRInstruction \<Rightarrow> reg_t set" where
  "registers_of insn = set (srcs insn) \<union> set_option (dest insn)"

definition registers_in :: "IRInstruction list \<Rightarrow> reg_t set" where
  "registers_in xs = (\<Union>x\<in>set xs. registers_of x)"

definition split_site :: "CFGInlinerPlugin \<Rightarrow> CallSite \<Rightarrow> CallSite" where
  "split_site plugin caller =
     (case maybe_split plugin caller of Inl e \<Rightarrow> caller | Inr split \<Rightarrow> split)"

definition inline_return_reg :: "CFGInlinerPlugin \<Rightarrow> CallSite \<Rightarrow> reg_t option" where
  "inline_return_reg plugin caller =
     (if site_has_move_result_any caller
      then (case reg_for_return plugin of
              Some r \<Rightarrow> Some r
            | None \<Rightarrow> (case site_move_result caller of None \<Rightarrow> None | Some mr \<Rightarrow> dest mr))
      else reg_for_return plugin)"

definition returns_have_src :: "IRInstruction list \<Rightarrow> bool" where
  "returns_have_src callee =
     list_all (\<lambda>x. is_return (opcode x) \<longrightarrow> opcode x = OPCODE_RETURN_VOID \<or> srcs x \<noteq> []) callee"

definition move_result_has_dest :: "CallSite \<Rightarrow> bool" where
  "move_result_has_dest caller =
     (case site_move_result caller of None \<Rightarrow> True | Some mr \<Rightarrow> dest mr \<noteq> None)"

definition adds_no_register ::
  "CallSite \<times> ControlFlowGraph \<Rightarrow> CallSite \<times> ControlFlowGraph \<Rightarrow> bool" where
  "adds_no_register given returned =
     (registers_in (caller_insns (fst returned) @ insns (snd returned))
        \<subseteq> registers_in (caller_insns (fst given) @ insns (snd given)))"

text \<open>
  The values the registers hold.  A move copies its source register into its destination
  register; a wide value occupies a register and the next one, and a wide move copies both.
  \<open>exec_moves\<close> runs a sequence of moves on the register file \<open>regs\<close>.  \<open>reg_span\<close>: the
  registers that an operand of an instruction of this opcode occupies.
\<close>

definition is_wide :: "IROpcode \<Rightarrow> bool" where
  "is_wide op = (op = OPCODE_MOVE_WIDE \<or> op = IOPCODE_LOAD_PARAM_WIDE)"

definition reg_span :: "IROpcode \<Rightarrow> reg_t \<Rightarrow> reg_t set" where
  "reg_span op r = (if is_wide op then {r, r + 1} else {r})"

definition exec_move :: "IRInstruction \<Rightarrow> (reg_t \<Rightarrow> 'v) \<Rightarrow> reg_t \<Rightarrow> 'v" where
  "exec_move insn regs =
     (case dest insn of
        None \<Rightarrow> regs
      | Some d \<Rightarrow>
          (case srcs insn of
             [s] \<Rightarrow>
               (\<lambda>r. if r = d then regs s
                    else if is_wide (opcode insn) \<and> r = d + 1 then regs (s + 1)
                    else regs r)
           | _ \<Rightarrow> regs))"

definition exec_moves :: "IRInstruction list \<Rightarrow> (reg_t \<Rightarrow> 'v) \<Rightarrow> reg_t \<Rightarrow> 'v" where
  "exec_moves moves regs = foldl (\<lambda>rs move. exec_move move rs) regs moves"

text \<open>
  \<open>args_in_caller\<close>: the argument registers of the parameters are registers of the caller,
  below its \<open>registers_size\<close>.  \<open>params_in_callee\<close>: the registers of the parameters are below
  the callee's \<open>registers_size\<close>.  \<open>params_distinct\<close>: no two parameters share a register.
\<close>

definition param_regs :: "IRInstruction \<Rightarrow> reg_t set" where
  "param_regs load = (case dest load of None \<Rightarrow> {} | Some d \<Rightarrow> reg_span (opcode load) d)"

definition args_in_caller :: "IRInstruction list \<Rightarrow> reg_t list \<Rightarrow> reg_t \<Rightarrow> bool" where
  "args_in_caller param_insns arg_srcs caller_regs_size =
     (\<forall>i<length param_insns.
        \<forall>r\<in>reg_span (opcode (param_insns ! i)) (arg_srcs ! i). r < caller_regs_size)"

definition params_in_callee :: "IRInstruction list \<Rightarrow> reg_t \<Rightarrow> bool" where
  "params_in_callee param_insns callee_regs_size =
     (\<forall>i<length param_insns. \<forall>r\<in>param_regs (param_insns ! i). r < callee_regs_size)"

definition params_distinct :: "IRInstruction list \<Rightarrow> bool" where
  "params_distinct param_insns =
     (\<forall>i<length param_insns. \<forall>j<length param_insns.
        i \<noteq> j \<longrightarrow> param_regs (param_insns ! i) \<inter> param_regs (param_insns ! j) = {})"

section \<open>CFG inliner, throw edges (service/method-inliner/CFGInliner.cpp)\<close>

text \<open>
  A \<open>Block*\<close> is an address.  An edge has a source, a target and a type; an edge of type
  \<open>EDGE_THROW\<close> carries its \<open>m_throw_info\<close>: the catch type (\<open>None\<close> for the null
  \<open>catch_type\<close> of a catch-all) and the \<open>uint32_t\<close> index that orders the handlers of a
  try region.  The CFG is seen here as its set of edges \<open>m_edges\<close> (a list, to which
  \<open>add_edge\<close> appends), the opcode of each block's last instruction (\<open>None\<close> when
  \<open>get_last_insn()\<close> is \<open>end()\<close>) and the opcode table \<open>opcode::can_throw\<close>; the last two
  are inputs, IROpcode.h and ControlFlow.cpp not being among the sources.
\<close>

type_synonym block_ptr = nat
type_synonym dex_type = nat

datatype EdgeType =
    EDGE_GOTO
  | EDGE_BRANCH
  | EDGE_THROW "dex_type option" "32 word"
  | EDGE_GHOST

record Edge =
  edge_src :: block_ptr
  edge_target :: block_ptr
  edge_type :: EdgeType

definition is_throw_edge :: "Edge \<Rightarrow> bool" where
  "is_throw_edge e = (case edge_type e of EDGE_THROW ct i \<Rightarrow> True | _ \<Rightarrow> False)"

text \<open>\<open>e->m_throw_info->catch_type\<close> and \<open>e->m_throw_info->index\<close> of a throw edge.\<close>

definition catch_type :: "Edge \<Rightarrow> dex_type option" where
  "catch_type e = (case edge_type e of EDGE_THROW ct i \<Rightarrow> ct | _ \<Rightarrow> None)"

definition throw_index :: "Edge \<Rightarrow> 32 word" where
  "throw_index e = (case edge_type e of EDGE_THROW ct i \<Rightarrow> i | _ \<Rightarrow> 0)"

text \<open>
  Modelled from the spec: \<open>Block::get_outgoing_throws_in_order\<close> and the throw-edge
  overload of \<open>ControlFlowGraph::add_edge\<close> are in ControlFlow.cpp, not among the sources.
  The first yields the block's outgoing throw edges ordered by catch priority, that is by
  index (spec 3: a THROW edge carries an ordinal index establishing try-region priority;
  CFGInliner.cpp line 367: "caller_catches is sorted by catch index"); the second adds a
  throw edge with the given catch type and index.
\<close>

definition get_outgoing_throws_in_order :: "Edge list \<Rightarrow> block_ptr \<Rightarrow> Edge list" where
  "get_outgoing_throws_in_order m_edges b =
     sort_key throw_index (filter (\<lambda>e. edge_src e = b \<and> is_throw_edge e) m_edges)"

definition add_edge ::
  "Edge list \<Rightarrow> block_ptr \<Rightarrow> block_ptr \<Rightarrow> dex_type option \<Rightarrow> 32 word \<Rightarrow> Edge list" where
  "add_edge m_edges source target' ct i =
     m_edges @ [\<lparr>edge_src = source, edge_target = target', edge_type = EDGE_THROW ct i\<rparr>]"

text \<open>
  The lambda \<open>add_throw_edges\<close> of \<open>add_callee_throws_to_caller\<close>, lines 383-391: one
  edge per caller catch, in the order of \<open>caller_catches\<close>, the index counting up from
  \<open>starting_index\<close>.
\<close>

fun add_throw_edges :: "Edge list \<Rightarrow> block_ptr \<Rightarrow> 32 word \<Rightarrow> Edge list \<Rightarrow> Edge list" where
  "add_throw_edges m_edges callee_block index [] = m_edges"
| "add_throw_edges m_edges callee_block index (caller_catch # caller_catches) =
     add_throw_edges
       (add_edge m_edges callee_block (edge_target caller_catch) (catch_type caller_catch) index)
       callee_block (index + 1) caller_catches"

text \<open>
  \<open>CFGInliner::add_callee_throws_to_caller\<close>, lines 369-419: \<open>callee_block_throws\<close> is
  the body of the loop over \<open>callee_blocks\<close>.
\<close>

definition callee_block_throws ::
  "(block_ptr \<Rightarrow> IROpcode option) \<Rightarrow> (IROpcode \<Rightarrow> bool) \<Rightarrow> Edge list \<Rightarrow> Edge list \<Rightarrow> block_ptr
     \<Rightarrow> Edge list" where
  "callee_block_throws last_insn can_throw caller_catches m_edges callee_block =
     (let existing_throws = get_outgoing_throws_in_order m_edges callee_block
      in if existing_throws = []
         then (case last_insn callee_block of
                 None \<Rightarrow> m_edges
               | Some op \<Rightarrow>
                   if can_throw op
                   then add_throw_edges m_edges callee_block 0 caller_catches
                   else m_edges)
         else if catch_type (last existing_throws) \<noteq> None
         then add_throw_edges m_edges callee_block
                (throw_index (last existing_throws) + 1) caller_catches
         else m_edges)"

fun add_callee_throws_to_caller ::
  "(block_ptr \<Rightarrow> IROpcode option) \<Rightarrow> (IROpcode \<Rightarrow> bool) \<Rightarrow> Edge list \<Rightarrow> block_ptr list
     \<Rightarrow> Edge list \<Rightarrow> Edge list" where
  "add_callee_throws_to_caller last_insn can_throw m_edges [] caller_catches = m_edges"
| "add_callee_throws_to_caller last_insn can_throw m_edges (callee_block # callee_blocks)
       caller_catches =
     add_callee_throws_to_caller last_insn can_throw
       (callee_block_throws last_insn can_throw caller_catches m_edges callee_block)
       callee_blocks caller_catches"

text \<open>
  \<open>CFGInliner::connect_cfgs\<close>, lines 246-251: the throw edges it adds.  The rest of
  \<open>connect_cfgs\<close> (lines 253-276) adds and deletes goto edges between the call site and
  the callee's entry and exits.
\<close>

definition connect_cfgs_throws ::
  "(block_ptr \<Rightarrow> IROpcode option) \<Rightarrow> (IROpcode \<Rightarrow> bool) \<Rightarrow> Edge list \<Rightarrow> block_ptr
     \<Rightarrow> block_ptr list \<Rightarrow> Edge list" where
  "connect_cfgs_throws last_insn can_throw m_edges callsite callee_blocks =
     (let caller_throws = get_outgoing_throws_in_order m_edges callsite
      in if caller_throws \<noteq> []
         then add_callee_throws_to_caller last_insn can_throw m_edges callee_blocks caller_throws
         else m_edges)"

text \<open>
  The edges \<open>add_throw_edges\<close> adds, by themselves: for each caller catch in order, an edge
  from the callee block to the catch's target with the catch's type, the indices counting up
  from \<open>start\<close>.
\<close>

fun new_throw_edges :: "block_ptr \<Rightarrow> 32 word \<Rightarrow> Edge list \<Rightarrow> Edge list" where
  "new_throw_edges b start [] = []"
| "new_throw_edges b start (c # cs) =
     \<lparr>edge_src = b, edge_target = edge_target c, edge_type = EDGE_THROW (catch_type c) start\<rparr>
     # new_throw_edges b (start + 1) cs"

text \<open>
  A block's outgoing throw edges after its turn in \<open>add_callee_throws_to_caller\<close>, given
  those it had: the case distinction of lines 394-417.
\<close>

definition expected_throws ::
  "(block_ptr \<Rightarrow> IROpcode option) \<Rightarrow> (IROpcode \<Rightarrow> bool) \<Rightarrow> Edge list \<Rightarrow> block_ptr \<Rightarrow> Edge list
     \<Rightarrow> Edge list" where
  "expected_throws last_insn can_throw caller_catches b existing =
     (if existing = []
      then (case last_insn b of
              None \<Rightarrow> []
            | Some op \<Rightarrow> if can_throw op then new_throw_edges b 0 caller_catches else [])
      else if catch_type (last existing) \<noteq> None
      then existing @ new_throw_edges b (throw_index (last existing) + 1) caller_catches
      else existing)"

section \<open>PatriciaTreeMap (sparta/include/PatriciaTreeMap.h)\<close>

subsection \<open>Nodes and pointers\<close>

text \<open>
  A \<open>std::shared_ptr<PatriciaTree>\<close> is null or points at an immutable node, a
  \<open>PatriciaTreeLeaf\<close> (key, value) or a \<open>PatriciaTreeBranch\<close> (prefix, branching bit,
  left, right).  The code compares these pointers (\<open>new_left_tree == branch->left_tree()\<close>,
  \<open>s == t\<close>, \<open>reference_equals\<close>), so a node carries the address it was allocated at:
  \<open>std::make_shared\<close> takes the next address from a counter that the allocating operations
  thread through, and two pointers are equal when both are null or both hold the same
  address.  Keys \<open>'k\<close> are the unsigned \<open>IntegerType\<close>: the operations take them as
  machine words.
\<close>

datatype ('k, 'v) ptree =
    Null
  | Leaf nat 'k 'v
  | Branch nat 'k 'k "('k, 'v) ptree" "('k, 'v) ptree"

fun addr_of :: "('k, 'v) ptree \<Rightarrow> nat option" where
  "addr_of Null = None"
| "addr_of (Leaf a k v) = Some a"
| "addr_of (Branch a p m l r) = Some a"

definition ptr_eq :: "('k, 'v) ptree \<Rightarrow> ('k, 'v) ptree \<Rightarrow> bool" where
  "ptr_eq s t = (addr_of s = addr_of t)"

text \<open>
  The \<open>Value\<close> descriptor a map is instantiated with (lines 142-162), and the default
  descriptor \<open>ptmap_impl::SimpleValue<T>\<close> (lines 115-124), \<open>T()\<close> being the parameter.
\<close>

record 'v Value =
  default_value :: 'v
  is_default_value :: "'v \<Rightarrow> bool"
  Value_equals :: "'v \<Rightarrow> 'v \<Rightarrow> bool"

definition SimpleValue :: "'v \<Rightarrow> 'v Value" where
  "SimpleValue T0 =
     \<lparr>default_value = T0, is_default_value = (\<lambda>t. t = T0), Value_equals = (\<lambda>a b. a = b)\<rparr>"

text \<open>\<open>ptmap_impl::snd\<close>, lines 106-109.\<close>

definition snd' :: "'v \<Rightarrow> 'v \<Rightarrow> 'v" where
  "snd' first second = second"

subsection \<open>Bit operations\<close>

text \<open>
  Modelled from the spec: PatriciaTreeUtil.h (\<open>pt_util\<close>) is not among the sources.  The
  spec (3) says that a branch node encodes a shared bit-prefix and a branching bit; the map
  follows Okasaki and Gill's little-endian Patricia trees, which PatriciaTreeMap.h cites
  (line 132) and whose order \<open>erase_all_matching\<close> relies on (line 750, a mask below the
  branching bit cannot meet a key bit above the prefix): the branching bit of two keys is
  the lowest bit in which they differ, and the prefix of a key under a branching bit is its
  bits below that bit.
\<close>

definition is_zero_bit :: "'a::len word \<Rightarrow> 'a word \<Rightarrow> bool" where
  "is_zero_bit k m = (k AND m = 0)"

definition get_lowest_bit :: "'a::len word \<Rightarrow> 'a word" where
  "get_lowest_bit x = x AND (NOT x + 1)"

definition get_branching_bit :: "'a::len word \<Rightarrow> 'a word \<Rightarrow> 'a word" where
  "get_branching_bit prefix0 prefix1 = get_lowest_bit (prefix0 XOR prefix1)"

definition mask' :: "'a::len word \<Rightarrow> 'a word \<Rightarrow> 'a word" where
  "mask' k m = k AND (m - 1)"

definition match_prefix :: "'a::len word \<Rightarrow> 'a word \<Rightarrow> 'a word \<Rightarrow> bool" where
  "match_prefix k p m = (mask' k m = p)"

subsection \<open>The tree operations of \<open>ptmap_impl\<close>\<close>

text \<open>\<open>join\<close>, lines 491-505: a new branch over two trees with different prefixes.\<close>

definition join ::
  "'a::len word \<Rightarrow> ('a word, 'v) ptree \<Rightarrow> 'a word \<Rightarrow> ('a word, 'v) ptree \<Rightarrow> nat \<Rightarrow> ('a word, 'v) ptree \<times> nat" where
  "join prefix0 tree0 prefix1 tree1 n =
     (let m = get_branching_bit prefix0 prefix1
      in if is_zero_bit prefix0 m
         then (Branch n (mask' prefix0 m) m tree0 tree1, Suc n)
         else (Branch n (mask' prefix0 m) m tree1 tree0, Suc n))"

text \<open>\<open>make_branch\<close>, lines 507-523: no branch with only one child.\<close>

definition make_branch ::
  "'a word \<Rightarrow> 'a word \<Rightarrow> ('a word, 'v) ptree \<Rightarrow> ('a word, 'v) ptree \<Rightarrow> nat \<Rightarrow> ('a word, 'v) ptree \<times> nat" where
  "make_branch prefix branching_bit left_tree right_tree n =
     (if left_tree = Null then (right_tree, n)
      else if right_tree = Null then (left_tree, n)
      else (Branch n prefix branching_bit left_tree right_tree, Suc n))"

text \<open>\<open>find_value\<close>, lines 525-549; \<open>None\<close> is the null result.\<close>

fun find_value :: "'a::len word \<Rightarrow> ('a word, 'v) ptree \<Rightarrow> 'v option" where
  "find_value key Null = None"
| "find_value key (Leaf a k v) = (if key = k then Some v else None)"
| "find_value key (Branch a p m l r) =
     (if is_zero_bit key m then find_value key l else find_value key r)"

text \<open>\<open>equals\<close>, lines 608-647.\<close>

fun equals :: "'v Value \<Rightarrow> ('a::len word, 'v) ptree \<Rightarrow> ('a word, 'v) ptree \<Rightarrow> bool" where
  "equals V Null tree2 = (tree2 = Null)"
| "equals V (Leaf a1 k1 v1) Null = False"
| "equals V (Branch a1 p1 m1 l1 r1) Null = False"
| "equals V (Leaf a1 k1 v1) (Leaf a2 k2 v2) =
     (if a1 = a2 then True else k1 = k2 \<and> Value_equals V v1 v2)"
| "equals V (Leaf a1 k1 v1) (Branch a2 p2 m2 l2 r2) = (a1 = a2)"
| "equals V (Branch a1 p1 m1 l1 r1) (Leaf a2 k2 v2) = (a1 = a2)"
| "equals V (Branch a1 p1 m1 l1 r1) (Branch a2 p2 m2 l2 r2) =
     (if a1 = a2 then True
      else p1 = p2 \<and> m1 = m2 \<and> equals V l1 l2 \<and> equals V r1 r2)"

text \<open>
  \<open>combine_leaf\<close>, lines 856-871, on the leaf at address \<open>a\<close> with key \<open>k\<close> and value
  \<open>v\<close>; \<open>combine_new_leaf\<close>, lines 873-882, which allocates a leaf holding the default
  value and combines into it.
\<close>

definition combine_leaf ::
  "'v Value \<Rightarrow> ('v \<Rightarrow> 'v \<Rightarrow> 'v) \<Rightarrow> 'v \<Rightarrow> nat \<Rightarrow> 'a word \<Rightarrow> 'v \<Rightarrow> nat \<Rightarrow> ('a word, 'v) ptree \<times> nat" where
  "combine_leaf V combine value' a k v n =
     (let combined_value = combine v value'
      in if is_default_value V combined_value then (Null, n)
         else if \<not> Value_equals V combined_value v then (Leaf n k combined_value, Suc n)
         else (Leaf a k v, n))"

definition combine_new_leaf ::
  "'v Value \<Rightarrow> ('v \<Rightarrow> 'v \<Rightarrow> 'v) \<Rightarrow> 'a word \<Rightarrow> 'v \<Rightarrow> nat \<Rightarrow> ('a word, 'v) ptree \<times> nat" where
  "combine_new_leaf V combine key value' n =
     combine_leaf V combine value' n key (default_value V) (Suc n)"

text \<open>\<open>update\<close>, lines 649-701.\<close>

fun update ::
  "'v Value \<Rightarrow> ('v \<Rightarrow> 'v \<Rightarrow> 'v) \<Rightarrow> 'a::len word \<Rightarrow> 'v \<Rightarrow> ('a word, 'v) ptree \<Rightarrow> nat
     \<Rightarrow> ('a word, 'v) ptree \<times> nat" where
  "update V combine key value' Null n = combine_new_leaf V combine key value' n"
| "update V combine key value' (Leaf a k v) n =
     (if key = k then combine_leaf V combine value' a k v n
      else (case combine_new_leaf V combine key value' n of
              (new_leaf, n1) \<Rightarrow>
                if new_leaf = Null then (Leaf a k v, n1)
                else join key new_leaf k (Leaf a k v) n1))"
| "update V combine key value' (Branch a p m l r) n =
     (if match_prefix key p m
      then (if is_zero_bit key m
            then (case update V combine key value' l n of
                    (new_left_tree, n1) \<Rightarrow>
                      if ptr_eq new_left_tree l then (Branch a p m l r, n1)
                      else make_branch p m new_left_tree r n1)
            else (case update V combine key value' r n of
                    (new_right_tree, n1) \<Rightarrow>
                      if ptr_eq new_right_tree r then (Branch a p m l r, n1)
                      else make_branch p m l new_right_tree n1))
      else (case combine_new_leaf V combine key value' n of
              (new_leaf, n1) \<Rightarrow>
                if new_leaf = Null then (Branch a p m l r, n1)
                else join key new_leaf p (Branch a p m l r) n1))"

text \<open>
  \<open>merge\<close>, lines 763-854.  The first three equations are the tests \<open>s == t\<close>,
  \<open>s == nullptr\<close>, \<open>t == nullptr\<close> on a null operand (a null pointer equals only a null
  pointer); in the others both operands are nodes.
\<close>

fun merge ::
  "'v Value \<Rightarrow> ('v \<Rightarrow> 'v \<Rightarrow> 'v) \<Rightarrow> ('a::len word, 'v) ptree \<Rightarrow> ('a word, 'v) ptree \<Rightarrow> nat
     \<Rightarrow> ('a word, 'v) ptree \<times> nat" where
  "merge V combine Null t n = (t, n)"
| "merge V combine (Leaf a k v) Null n = (Leaf a k v, n)"
| "merge V combine (Branch a p m s0 s1) Null n = (Branch a p m s0 s1, n)"
| "merge V combine (Leaf a k v) (Leaf b k' v') n =
     (if a = b then (Leaf a k v, n)
      else update V combine k v (Leaf b k' v') n)"
| "merge V combine (Leaf a k v) (Branch b q n' t0 t1) n =
     (if a = b then (Leaf a k v, n)
      else update V combine k v (Branch b q n' t0 t1) n)"
| "merge V combine (Branch a p m s0 s1) (Leaf b k v) n =
     (if a = b then (Branch a p m s0 s1, n)
      else update V combine k v (Branch a p m s0 s1) n)"
| "merge V combine (Branch a p m s0 s1) (Branch b q n' t0 t1) n =
     (if a = b then (Branch a p m s0 s1, n)
      else if m = n' \<and> p = q
      then (case merge V combine s0 t0 n of
              (new_left, n1) \<Rightarrow>
                (case merge V combine s1 t1 n1 of
                   (new_right, n2) \<Rightarrow>
                     if ptr_eq new_left s0 \<and> ptr_eq new_right s1
                     then (Branch a p m s0 s1, n2)
                     else if ptr_eq new_left t0 \<and> ptr_eq new_right t1
                     then (Branch b q n' t0 t1, n2)
                     else (Branch n2 p m new_left new_right, Suc n2)))
      else if m < n' \<and> match_prefix q p m
      then (if is_zero_bit q m
            then (case merge V combine s0 (Branch b q n' t0 t1) n of
                    (new_left, n1) \<Rightarrow>
                      if ptr_eq s0 new_left then (Branch a p m s0 s1, n1)
                      else (Branch n1 p m new_left s1, Suc n1))
            else (case merge V combine s1 (Branch b q n' t0 t1) n of
                    (new_right, n1) \<Rightarrow>
                      if ptr_eq s1 new_right then (Branch a p m s0 s1, n1)
                      else (Branch n1 p m s0 new_right, Suc n1)))
      else if m > n' \<and> match_prefix p q n'
      then (if is_zero_bit p n'
            then (case merge V combine (Branch a p m s0 s1) t0 n of
                    (new_left, n1) \<Rightarrow>
                      if ptr_eq t0 new_left then (Branch b q n' t0 t1, n1)
                      else (Branch n1 q n' new_left t1, Suc n1))
            else (case merge V combine (Branch a p m s0 s1) t1 n of
                    (new_right, n1) \<Rightarrow>
                      if ptr_eq t1 new_right then (Branch b q n' t0 t1, n1)
                      else (Branch n1 q n' t0 new_right, Suc n1)))
      else join p (Branch a p m s0 s1) q (Branch b q n' t0 t1) n)"

subsection \<open>The iterator and the map class\<close>

text \<open>
  \<open>PatriciaTreeIterator\<close>, lines 961-1049: the stack of branches and the current leaf
  (\<open>Null\<close> at the end).  \<open>go_to_next_leaf\<close> (lines 1030-1045) walks to the leftmost leaf;
  its \<open>RUNTIME_CHECK\<close> throws \<open>internal_error\<close> at a branch without a left child, and on a
  null argument \<open>t->is_branch()\<close> dereferences a null pointer.
\<close>

fun go_to_next_leaf ::
  "('k, 'v) ptree \<Rightarrow> ('k, 'v) ptree list \<Rightarrow> error + (('k, 'v) ptree list \<times> ('k, 'v) ptree)" where
  "go_to_next_leaf Null m_stack = Inl NullDereference"
| "go_to_next_leaf (Leaf a k v) m_stack = Inr (m_stack, Leaf a k v)"
| "go_to_next_leaf (Branch a p m l r) m_stack =
     (if l = Null then Inl InternalError
      else go_to_next_leaf l (Branch a p m l r # m_stack))"

fun right_tree :: "('k, 'v) ptree \<Rightarrow> ('k, 'v) ptree" where
  "right_tree (Branch a p m l r) = r"
| "right_tree t = Null"

text \<open>The constructor \<open>PatriciaTreeIterator(tree)\<close>, lines 979-985, that is \<open>begin()\<close>.\<close>

definition iterator_begin ::
  "('k, 'v) ptree \<Rightarrow> error + (('k, 'v) ptree list \<times> ('k, 'v) ptree)" where
  "iterator_begin tree = (if tree = Null then Inr ([], Null) else go_to_next_leaf tree [])"

text \<open>
  \<open>size()\<close>, lines 212-216: \<open>std::for_each(begin(), end(), ++s)\<close>.  \<open>count_to_end\<close> is
  the loop from an iterator to \<open>end()\<close>, each step \<open>operator++\<close> (lines 987-1002).
\<close>

function count_to_end :: "('k, 'v) ptree list \<times> ('k, 'v) ptree \<Rightarrow> error + nat" where
  "count_to_end (m_stack, m_leaf) =
     (if m_leaf = Null then Inr 0
      else (case m_stack of
              [] \<Rightarrow> Inr 1
            | branch # rest \<Rightarrow>
                (case go_to_next_leaf (right_tree branch) rest of
                   Inl e \<Rightarrow> Inl e
                 | Inr it \<Rightarrow>
                     (case count_to_end it of
                        Inl e \<Rightarrow> Inl e
                      | Inr s \<Rightarrow> Inr (Suc s)))))"
  by pat_completeness auto
termination
proof (relation "measure (\<lambda>(m_stack, m_leaf). sum_list (map (\<lambda>b. Suc (size (right_tree b))) m_stack))")
  show "wf (measure (\<lambda>(m_stack, m_leaf :: ('k, 'v) ptree).
              sum_list (map (\<lambda>b. Suc (size (right_tree b))) m_stack)))"
    by simp
next
  fix m_stack :: "('k, 'v) ptree list" and m_leaf :: "('k, 'v) ptree"
    and branch rest it
  assume go: "go_to_next_leaf (right_tree branch) rest = Inr it" and "m_stack = branch # rest"
  have walk: "sum_list (map (\<lambda>b. Suc (size (right_tree b))) st') \<le>
                size t + sum_list (map (\<lambda>b. Suc (size (right_tree b))) st)"
    if "go_to_next_leaf t st = Inr (st', lf)" for t :: "('k, 'v) ptree" and st st' lf
    using that
  proof (induction t arbitrary: st)
    case Null
    then show ?case by simp
  next
    case (Leaf a k v)
    then show ?case by auto
  next
    case (Branch a p m l r)
    from Branch.prems have "go_to_next_leaf l (Branch a p m l r # st) = Inr (st', lf)"
      by (simp split: if_splits)
    from Branch.IH(1) [OF this] show ?case by simp
  qed
  obtain st' lf where it: "it = (st', lf)" by (cases it)
  from walk [OF go [unfolded it]] \<open>m_stack = branch # rest\<close>
  show "(it, m_stack, m_leaf)
          \<in> measure (\<lambda>(m_stack, m_leaf). sum_list (map (\<lambda>b. Suc (size (right_tree b))) m_stack))"
    by (simp add: it)
qed

definition size' :: "('k, 'v) ptree \<Rightarrow> error + nat" where
  "size' m_tree = (case iterator_begin m_tree of Inl e \<Rightarrow> Inl e | Inr it \<Rightarrow> count_to_end it)"

text \<open>
  The methods of \<open>PatriciaTreeMap\<close>; the map is its \<open>m_tree\<close> pointer.  \<open>at\<close> (lines
  224-230), \<open>equals\<close> (244-246), \<open>reference_equals\<close> (274-276), \<open>update\<close> (278-289),
  \<open>insert_or_assign\<close> (306-310), \<open>union_with\<close> (312-317).
\<close>

definition at' :: "'v Value \<Rightarrow> 'a::len word \<Rightarrow> ('a word, 'v) ptree \<Rightarrow> 'v" where
  "at' V key m_tree = (case find_value key m_tree of None \<Rightarrow> default_value V | Some v \<Rightarrow> v)"

definition reference_equals :: "('k, 'v) ptree \<Rightarrow> ('k, 'v) ptree \<Rightarrow> bool" where
  "reference_equals m_tree other = ptr_eq m_tree other"

definition PatriciaTreeMap_update ::
  "'v Value \<Rightarrow> ('v \<Rightarrow> 'v) \<Rightarrow> 'a::len word \<Rightarrow> ('a word, 'v) ptree \<Rightarrow> nat \<Rightarrow> ('a word, 'v) ptree \<times> nat" where
  "PatriciaTreeMap_update V operation key m_tree n =
     update V (\<lambda>x y. operation x) key (default_value V) m_tree n"

definition insert_or_assign ::
  "'v Value \<Rightarrow> 'a::len word \<Rightarrow> 'v \<Rightarrow> ('a word, 'v) ptree \<Rightarrow> nat \<Rightarrow> ('a word, 'v) ptree \<times> nat" where
  "insert_or_assign V key value' m_tree n = update V snd' key value' m_tree n"

definition union_with ::
  "'v Value \<Rightarrow> ('v \<Rightarrow> 'v \<Rightarrow> 'v) \<Rightarrow> ('a::len word, 'v) ptree \<Rightarrow> ('a word, 'v) ptree \<Rightarrow> nat
     \<Rightarrow> ('a word, 'v) ptree \<times> nat" where
  "union_with V combine m_tree other n = merge V combine m_tree other n"

subsection \<open>Invariants\<close>

text \<open>
  The keys and the values stored in the leaves of a tree, and its number of leaves.
\<close>

fun leaf_keys :: "('k, 'v) ptree \<Rightarrow> 'k set" where
  "leaf_keys Null = {}"
| "leaf_keys (Leaf a k v) = {k}"
| "leaf_keys (Branch a p m l r) = leaf_keys l \<union> leaf_keys r"

fun leaf_values :: "('k, 'v) ptree \<Rightarrow> 'v set" where
  "leaf_values Null = {}"
| "leaf_values (Leaf a k v) = {v}"
| "leaf_values (Branch a p m l r) = leaf_values l \<union> leaf_values r"

fun leaves :: "('k, 'v) ptree \<Rightarrow> nat" where
  "leaves Null = 0"
| "leaves (Leaf a k v) = 1"
| "leaves (Branch a p m l r) = leaves l + leaves r"

text \<open>
  \<open>prefix_inv\<close>: under a branch every key has the branch's prefix below the branching
  bit, the keys on the left have the branching bit clear and those on the right have it set.
  This is what \<open>find_value\<close> relies on when it follows the branching bits only.
\<close>

fun prefix_inv :: "('a::len word, 'v) ptree \<Rightarrow> bool" where
  "prefix_inv Null = True"
| "prefix_inv (Leaf a k v) = True"
| "prefix_inv (Branch a p m l r) =
     ((\<forall>k\<in>leaf_keys l. match_prefix k p m \<and> is_zero_bit k m) \<and>
      (\<forall>k\<in>leaf_keys r. match_prefix k p m \<and> \<not> is_zero_bit k m) \<and>
      prefix_inv l \<and> prefix_inv r)"

text \<open>
  \<open>addr_ok n\<close>: the tree lives in a heap whose allocation counter is \<open>n\<close>.  Every node was
  allocated before \<open>n\<close>, and a branch, being immutable, after its children.
\<close>

fun addr_ok :: "nat \<Rightarrow> ('k, 'v) ptree \<Rightarrow> bool" where
  "addr_ok n Null = True"
| "addr_ok n (Leaf a k v) = (a < n)"
| "addr_ok n (Branch a p m l r) = (a < n \<and> addr_ok a l \<and> addr_ok a r)"

text \<open>The nodes of a tree, and the trees all of whose branches have two children.\<close>

fun subtrees :: "('k, 'v) ptree \<Rightarrow> ('k, 'v) ptree set" where
  "subtrees Null = {}"
| "subtrees (Leaf a k v) = {Leaf a k v}"
| "subtrees (Branch a p m l r) = insert (Branch a p m l r) (subtrees l \<union> subtrees r)"

fun full :: "('k, 'v) ptree \<Rightarrow> bool" where
  "full Null = True"
| "full (Leaf a k v) = True"
| "full (Branch a p m l r) = (l \<noteq> Null \<and> r \<noteq> Null \<and> full l \<and> full r)"

text \<open>Where the result of an operation comes from: null, a node of the operand, or fresh.\<close>

definition from_heap :: "nat \<Rightarrow> ('k, 'v) ptree \<Rightarrow> ('k, 'v) ptree \<Rightarrow> bool" where
  "from_heap n t t' = (t' = Null \<or> t' \<in> subtrees t \<or> (\<exists>a. addr_of t' = Some a \<and> n \<le> a))"

text \<open>
  \<open>shrinks t t'\<close>: \<open>t'\<close> stores no key and no value that \<open>t\<close> does not store, has no
  more leaves, and keeps the shape invariants of \<open>t\<close>.
\<close>

definition shrinks :: "('a::len word, 'v) ptree \<Rightarrow> ('a word, 'v) ptree \<Rightarrow> bool" where
  "shrinks t t' =
     (leaf_values t' \<subseteq> leaf_values t \<and> leaf_keys t' \<subseteq> leaf_keys t \<and> leaves t' \<le> leaves t \<and>
      (full t \<longrightarrow> full t') \<and> prefix_inv t')"

text \<open>
  The iterator's stack: \<open>weight\<close> counts the leaves still to be visited under the right
  children of the stacked branches; \<open>stack_full\<close> says these right children exist and are
  full.
\<close>

definition weight :: "('k, 'v) ptree list \<Rightarrow> nat" where
  "weight st = sum_list (map (\<lambda>b. leaves (right_tree b)) st)"

definition stack_full :: "('k, 'v) ptree list \<Rightarrow> bool" where
  "stack_full st = (\<forall>b\<in>set st. right_tree b \<noteq> Null \<and> full (right_tree b))"

section \<open>Proofs: CFGMutation\<close>

lemma calls_on_Nil: "calls_on w a [] = []"
  by (simp add: calls_on_def)

lemma calls_on_Cons:
  "calls_on w a ((w', anchor, xs) # calls) =
     (if w' = w \<and> anchor = Some a then xs # calls_on w a calls else calls_on w a calls)"
  by (simp add: calls_on_def)

lemma spec_Nil:
  "spec_before a [] = []" "spec_after a [] = []" "spec_replace a [] = None"
  by (simp_all add: spec_before_def spec_after_def spec_replace_def calls_on_Nil)

lemma spec_Cons:
  "spec_before a ((w, anchor, xs) # calls) =
     (if w = Before \<and> anchor = Some a then xs @ spec_before a calls else spec_before a calls)"
  "spec_after a ((w, anchor, xs) # calls) =
     (if w = After \<and> anchor = Some a then xs @ spec_after a calls else spec_after a calls)"
  "spec_replace a ((w, anchor, xs) # calls) =
     (if w = Replacing \<and> anchor = Some a then Some xs else spec_replace a calls)"
  by (simp_all add: spec_before_def spec_after_def spec_replace_def calls_on_Cons)

lemma pending_add_change:
  "add_change w anchor xs mut = Inr mut' \<Longrightarrow>
   pending mut' a =
     (if anchor = Some a
      then (case w of
              Before \<Rightarrow> (pending mut a)\<lparr>m_insert_before := m_insert_before (pending mut a) @ xs\<rparr>
            | After \<Rightarrow> (pending mut a)\<lparr>m_insert_after := m_insert_after (pending mut a) @ xs\<rparr>
            | Replacing \<Rightarrow> (pending mut a)\<lparr>m_replace := Some xs\<rparr>)
      else pending mut a)
   \<and> (anchor = Some a \<and> w = Replacing \<longrightarrow> m_replace (pending mut a) = None)
   \<and> m_cfg mut' = m_cfg mut"
  by (cases w; cases anchor)
     (auto simp: add_change_def pending_def split: option.splits sum.splits if_splits)

lemma pending_add_changes:
  "add_changes calls mut = Inr mut' \<Longrightarrow>
   m_insert_before (pending mut' a) = m_insert_before (pending mut a) @ spec_before a calls \<and>
   m_insert_after (pending mut' a) = m_insert_after (pending mut a) @ spec_after a calls \<and>
   m_replace (pending mut' a) =
     (case m_replace (pending mut a) of Some rs \<Rightarrow> Some rs | None \<Rightarrow> spec_replace a calls) \<and>
   m_cfg mut' = m_cfg mut"
proof (induction calls arbitrary: mut)
  case Nil
  then show ?case
    by (simp add: spec_Nil split: option.splits)
next
  case (Cons c calls)
  obtain w anchor xs where c: "c = (w, anchor, xs)" by (cases c)
  from Cons.prems c obtain mut1 where
    step: "add_change w anchor xs mut = Inr mut1" and rest: "add_changes calls mut1 = Inr mut'"
    by (auto split: sum.splits)
  note IH = Cons.IH [OF rest]
  note P = pending_add_change [OF step, of a]
  show ?case
  proof (cases "anchor = Some a")
    case False
    with IH P c show ?thesis
      by (auto simp: spec_Cons split: option.splits)
  next
    case True
    with IH P c show ?thesis
      by (cases w) (auto simp: spec_Cons split: option.splits)
  qed
qed


lemma add_change_other:
  "add_change w anchor xs mut = Inr mut' \<Longrightarrow> anchor \<noteq> Some i \<Longrightarrow> m_changes mut' i = m_changes mut i"
  by (cases anchor) (auto simp: add_change_def split: sum.splits)

lemma add_change_entry:
  "add_change w (Some a) xs mut = Inr mut' \<Longrightarrow> m_changes mut' a = Some (pending mut' a)"
  by (auto simp: add_change_def pending_def split: sum.splits)

lemma add_changes_other:
  "add_changes calls mut = Inr mut' \<Longrightarrow> \<forall>c\<in>set calls. fst (snd c) \<noteq> Some i \<Longrightarrow>
   m_changes mut' i = m_changes mut i"
proof (induction calls arbitrary: mut)
  case Nil
  then show ?case by simp
next
  case (Cons c calls)
  obtain w anchor xs where c: "c = (w, anchor, xs)" by (cases c)
  from Cons.prems c obtain mut1 where
    step: "add_change w anchor xs mut = Inr mut1" and rest: "add_changes calls mut1 = Inr mut'"
    by (auto split: sum.splits)
  from Cons.prems c have "anchor \<noteq> Some i" by simp
  with step have "m_changes mut1 i = m_changes mut i" by (rule add_change_other)
  moreover from Cons.prems have "m_changes mut' i = m_changes mut1 i"
    by (intro Cons.IH [OF rest]) simp
  ultimately show ?case by simp
qed

lemma add_changes_entry:
  "add_changes calls mut = Inr mut' \<Longrightarrow> m_changes mut a \<noteq> None \<or> (\<exists>c\<in>set calls. fst (snd c) = Some a) \<Longrightarrow>
   m_changes mut' a = Some (pending mut' a)"
proof (induction calls arbitrary: mut)
  case Nil
  then show ?case by (auto simp: pending_def)
next
  case (Cons c calls)
  obtain w anchor xs where c: "c = (w, anchor, xs)" by (cases c)
  from Cons.prems c obtain mut1 where
    step: "add_change w anchor xs mut = Inr mut1" and rest: "add_changes calls mut1 = Inr mut'"
    by (auto split: sum.splits)
  have "m_changes mut1 a \<noteq> None \<or> (\<exists>c\<in>set calls. fst (snd c) = Some a)"
  proof (cases "anchor = Some a")
    case True
    with step show ?thesis by (auto dest: add_change_entry)
  next
    case False
    with step have "m_changes mut1 a = m_changes mut a" by (intro add_change_other)
    with Cons.prems(2) c False show ?thesis by auto
  qed
  then show ?case by (rule Cons.IH [OF rest])
qed

lemma apply_changes_none:
  "\<forall>i\<in>set cfg. changes i = None \<Longrightarrow> apply_changes terminal changes cfg = Inr cfg"
  by (induction cfg) auto

lemma apply_changes_cong:
  "\<forall>i\<in>set cfg. changes i = changes' i \<Longrightarrow>
   apply_changes terminal changes cfg = apply_changes terminal changes' cfg"
proof (induction cfg arbitrary: changes changes')
  case Nil
  then show ?case by simp
next
  case (Cons insn rest)
  have same: "changes insn = changes' insn" using Cons.prems by simp
  have keep: "apply_changes terminal changes rest = apply_changes terminal changes' rest"
    using Cons.prems by (intro Cons.IH) simp
  have drop: "apply_changes terminal (changes(insn := None)) rest =
              apply_changes terminal (changes'(insn := None)) rest"
    using Cons.prems by (intro Cons.IH) simp
  show ?case
    by (simp add: same keep drop split: option.splits sum.splits)
qed

lemma apply_changes_single:
  assumes "a \<notin> set pre" and "changes a = Some cs" and "\<forall>i. i \<noteq> a \<longrightarrow> changes i = None"
  shows "apply_changes terminal changes (pre @ a # post) =
           (case ChangeSet_apply terminal cs a of
              Inl e \<Rightarrow> Inl e
            | Inr new \<Rightarrow> Inr (pre @ new @ post))"
  using assms
proof (induction pre)
  case Nil
  have "apply_changes terminal (changes(a := None)) post = Inr post"
    using Nil.prems by (intro apply_changes_none) simp
  with Nil.prems show ?case by (simp split: sum.splits)
next
  case (Cons p pre)
  then have "changes p = None" by auto
  with Cons show ?case by (simp split: sum.splits)
qed


lemma flush_single_anchor:
  assumes ok: "add_changes calls (CFGMutation_new (pre @ a # post)) = Inr mut"
    and only_a: "\<forall>c\<in>set calls. fst (snd c) = Some a"
    and nonempty: "calls \<noteq> []"
    and first: "a \<notin> set pre"
  shows "flush terminal mut =
           (if spec_after a calls \<noteq> [] \<and> terminal a \<and> spec_replace a calls = None
            then Inl (AssertionFailure ''Insert::After a terminal instruction without Replacing it'')
            else Inr (CFGMutation_new
                   (pre @ spec_before a calls
                    @ (case spec_replace a calls of None \<Rightarrow> [a] | Some rs \<Rightarrow> rs)
                    @ spec_after a calls @ post)))"
proof -
  note acc = pending_add_changes [OF ok, of a]
  have p0: "pending (CFGMutation_new (pre @ a # post)) a = ChangeSet_default"
    by (simp add: pending_def CFGMutation_new_def)
  have fields:
    "m_insert_before (pending mut a) = spec_before a calls"
    "m_insert_after (pending mut a) = spec_after a calls"
    "m_replace (pending mut a) = spec_replace a calls"
    using acc unfolding p0 by (simp_all add: ChangeSet_default_def)
  have cfg: "m_cfg mut = pre @ a # post"
    using acc by (simp add: CFGMutation_new_def)
  from nonempty only_a have "\<exists>c\<in>set calls. fst (snd c) = Some a"
    by (cases calls) auto
  then have entry: "m_changes mut a = Some (pending mut a)"
    using add_changes_entry [OF ok] by blast
  have others: "\<forall>i. i \<noteq> a \<longrightarrow> m_changes mut i = None"
  proof (intro allI impI)
    fix i assume "i \<noteq> a"
    with only_a have "\<forall>c\<in>set calls. fst (snd c) \<noteq> Some i" by auto
    from add_changes_other [OF ok this] show "m_changes mut i = None"
      by (simp add: CFGMutation_new_def)
  qed
  have "apply_changes terminal (m_changes mut) (pre @ a # post) =
          (case ChangeSet_apply terminal (pending mut a) a of
             Inl e \<Rightarrow> Inl e
           | Inr new \<Rightarrow> Inr (pre @ new @ post))"
    using first entry others by (rule apply_changes_single)
  then show ?thesis
    by (simp add: flush_def fields cfg ChangeSet_apply_def CFGMutation_new_def)
qed

text \<open>
  C2.  For one anchor \<open>a\<close> of the CFG, after \<open>add_change(Before, a1)\<close>,
  \<open>add_change(Replacing, r)\<close>, \<open>add_change(Before, a2)\<close>, \<open>add_change(After, y1)\<close>,
  \<open>add_change(After, y2)\<close> every call succeeds and flushing replaces the anchor with exactly
  \<open>a1 @ a2 @ r @ y1 @ y2\<close>.  In general, after any successful sequence of calls on a fresh
  mutation the pending change of \<open>a\<close> holds all \<open>Before\<close> lists in call order, the
  \<open>Replacing\<close> list if any, and all \<open>After\<close> lists in call order, and when all calls
  target \<open>a\<close> flushing puts them at the anchor in that order (the anchor itself stays
  between the two when nothing replaces it).
\<close>

theorem add_change_accumulation_order:
  assumes "a \<notin> set pre"
  shows
    "(\<exists>mut. add_changes
              [(Before, Some a, a1), (Replacing, Some a, r), (Before, Some a, a2),
               (After, Some a, y1), (After, Some a, y2)]
              (CFGMutation_new (pre @ a # post)) = Inr mut
          \<and> flush terminal mut = Inr (CFGMutation_new (pre @ a1 @ a2 @ r @ y1 @ y2 @ post)))
     \<and> (\<forall>calls mut.
           add_changes calls (CFGMutation_new (pre @ a # post)) = Inr mut \<longrightarrow>
             pending mut a =
               \<lparr>m_insert_before = spec_before a calls,
                m_replace = spec_replace a calls,
                m_insert_after = spec_after a calls\<rparr>
           \<and> (calls \<noteq> [] \<and> (\<forall>c\<in>set calls. fst (snd c) = Some a) \<and>
                \<not> (spec_after a calls \<noteq> [] \<and> terminal a \<and> spec_replace a calls = None) \<longrightarrow>
              flush terminal mut =
                Inr (CFGMutation_new
                      (pre @ spec_before a calls
                       @ (case spec_replace a calls of None \<Rightarrow> [a] | Some rs \<Rightarrow> rs)
                       @ spec_after a calls @ post))))"
proof (intro conjI allI impI)
  let ?calls = "[(Before, Some a, a1), (Replacing, Some a, r), (Before, Some a, a2),
                 (After, Some a, y1), (After, Some a, y2)]"
  obtain mut where ok: "add_changes ?calls (CFGMutation_new (pre @ a # post)) = Inr mut"
    by (simp add: add_change_def CFGMutation_new_def ChangeSet_default_def)
  have "flush terminal mut = Inr (CFGMutation_new (pre @ a1 @ a2 @ r @ y1 @ y2 @ post))"
    using flush_single_anchor [OF ok _ _ assms, of terminal]
    by (simp add: spec_Cons spec_Nil)
  with ok show "\<exists>mut. add_changes ?calls (CFGMutation_new (pre @ a # post)) = Inr mut
      \<and> flush terminal mut = Inr (CFGMutation_new (pre @ a1 @ a2 @ r @ y1 @ y2 @ post))"
    by blast
next
  fix calls mut
  assume ok: "add_changes calls (CFGMutation_new (pre @ a # post)) = Inr mut"
  have "pending (CFGMutation_new (pre @ a # post)) a = ChangeSet_default"
    by (simp add: pending_def CFGMutation_new_def)
  with pending_add_changes [OF ok, of a]
  show "pending mut a =
          \<lparr>m_insert_before = spec_before a calls,
           m_replace = spec_replace a calls,
           m_insert_after = spec_after a calls\<rparr>"
    by (cases "pending mut a") (simp add: ChangeSet_default_def)
next
  fix calls mut
  assume ok: "add_changes calls (CFGMutation_new (pre @ a # post)) = Inr mut"
    and rest: "calls \<noteq> [] \<and> (\<forall>c\<in>set calls. fst (snd c) = Some a) \<and>
                \<not> (spec_after a calls \<noteq> [] \<and> terminal a \<and> spec_replace a calls = None)"
  from rest flush_single_anchor [OF ok _ _ assms, of terminal]
  show "flush terminal mut =
          Inr (CFGMutation_new
                (pre @ spec_before a calls
                 @ (case spec_replace a calls of None \<Rightarrow> [a] | Some rs \<Rightarrow> rs)
                 @ spec_after a calls @ post))"
    by auto
qed

theorem add_change_accumulation_order_witness:
  "(7::nat) \<notin> set [5, 6]
   \<and> (\<exists>mut. add_changes
              [(Before, Some 7, [10]), (Replacing, Some 7, [20, 21]), (Before, Some 7, [11]),
               (After, Some 7, [30]), (After, Some 7, [31])]
              (CFGMutation_new ([5, 6] @ 7 # [8])) = Inr mut
          \<and> flush (\<lambda>i. True) mut = Inr (CFGMutation_new [5, 6, 10, 11, 20, 21, 30, 31, 8]))"
  using add_change_accumulation_order [of 7 "[5, 6]" "[10]" "[20, 21]" "[11]" "[30]" "[31]" "[8]" "\<lambda>i. True"]
  by simp


text \<open>
  C8 (amended).  Once \<open>add_change(Replacing, a, r1)\<close> has succeeded, a second
  \<open>add_change(Replacing, a, r2)\<close> fails with the assertion "It's not possible to have two
  Replacing instructions for a single anchor", whatever \<open>add_change\<close> calls (on this or
  other anchors) were made in between and whatever the mutation held before the first call,
  provided no \<open>flush\<close> or \<open>clear\<close> ran between the two calls.
\<close>

theorem double_replace_rejected:
  assumes first: "add_change Replacing (Some a) r1 mut = Inr mut1"
    and between: "add_changes calls mut1 = Inr mut2"
  shows "add_change Replacing (Some a) r2 mut2 =
           Inl (AssertionFailure
             ''It's not possible to have two Replacing instructions for a single anchor.'')"
proof -
  from pending_add_change [OF first, of a]
  have "m_replace (pending mut1 a) = Some r1" by simp
  with pending_add_changes [OF between, of a]
  have "m_replace (pending mut2 a) = Some r1" by simp
  then show ?thesis
    by (simp add: add_change_def pending_def)
qed

theorem double_replace_rejected_witness:
  "\<exists>mut1 mut2.
     add_change Replacing (Some 0) [5] (CFGMutation_new [0, 1]) = Inr mut1
     \<and> add_changes [(Before, Some 1, [6]), (After, Some 0, [7])] mut1 = Inr mut2
     \<and> add_change Replacing (Some 0) [8] mut2 =
         Inl (AssertionFailure
           ''It's not possible to have two Replacing instructions for a single anchor.'')"
proof -
  obtain mut1 where h1: "add_change Replacing (Some 0) [5] (CFGMutation_new [0, 1]) = Inr mut1"
    by (simp add: add_change_def CFGMutation_new_def ChangeSet_default_def)
  obtain mut2 where h2: "add_changes [(Before, Some 1, [6]), (After, Some 0, [7])] mut1 = Inr mut2"
    using h1 by (auto simp: add_change_def CFGMutation_new_def ChangeSet_default_def)
  from double_replace_rejected [OF h1 h2, of "[8]"] h1 h2 show ?thesis by blast
qed

text \<open>
  C8 as stated fails: the rejection does not hold regardless of a \<open>clear\<close> between the two
  calls.  After \<open>clear()\<close> the log is empty and the second \<open>Replacing\<close> on the same anchor
  is accepted.
\<close>

theorem double_replace_after_clear_accepted:
  "\<not> isl (add_change Replacing (Some 0) [5] (CFGMutation_new [0]))
   \<and> \<not> isl (add_change Replacing (Some 0) [8]
              (clear (projr (add_change Replacing (Some 0) [5] (CFGMutation_new [0])))))"
  by (simp add: add_change_def CFGMutation_new_def ChangeSet_default_def clear_def)

text \<open>
  C9.  An edit staged with \<open>add_change\<close> whose anchor is not in the CFG when \<open>flush\<close>
  runs has no effect: flushing gives exactly what it gives without that edit, and when it was
  the only pending edit the flush raises no error, leaves the CFG as it found it and empties
  the log.
\<close>

theorem stale_anchor_dropped:
  assumes staged: "add_change w (Some a) xs mut = Inr mut'"
    and stale: "a \<notin> set cfg'"
  shows "flush terminal (mut'\<lparr>m_cfg := cfg'\<rparr>) = flush terminal (mut\<lparr>m_cfg := cfg'\<rparr>)
         \<and> (m_changes mut = Map.empty \<longrightarrow>
              flush terminal (mut'\<lparr>m_cfg := cfg'\<rparr>) = Inr \<lparr>m_cfg = cfg', m_changes = Map.empty\<rparr>)"
proof -
  have "\<forall>i\<in>set cfg'. m_changes mut' i = m_changes mut i"
  proof
    fix i assume "i \<in> set cfg'"
    with stale have "Some a \<noteq> Some i" by auto
    with staged show "m_changes mut' i = m_changes mut i" by (rule add_change_other)
  qed
  then have same: "apply_changes terminal (m_changes mut') cfg' =
                   apply_changes terminal (m_changes mut) cfg'"
    by (rule apply_changes_cong)
  have "m_changes mut = Map.empty \<Longrightarrow> apply_changes terminal (m_changes mut) cfg' = Inr cfg'"
    by (rule apply_changes_none) simp
  with same show ?thesis
    by (simp add: flush_def)
qed

theorem stale_anchor_dropped_witness:
  "\<exists>mut'. add_change After (Some 2) [9] (CFGMutation_new [1, 2, 3]) = Inr mut'
     \<and> (2::nat) \<notin> set [1, 3]
     \<and> flush (\<lambda>i. True) (mut'\<lparr>m_cfg := [1, 3]\<rparr>) = Inr \<lparr>m_cfg = [1, 3], m_changes = Map.empty\<rparr>"
proof -
  obtain mut' where h: "add_change After (Some 2) [9] (CFGMutation_new [1, 2, 3]) = Inr mut'"
    by (simp add: add_change_def CFGMutation_new_def ChangeSet_default_def)
  have s: "(2::nat) \<notin> set [1, 3]" by simp
  from stale_anchor_dropped [OF h s, of "\<lambda>i. True"] h s show ?thesis
    by (auto simp: CFGMutation_new_def)
qed

section \<open>Proofs: concurrent containers\<close>

lemma slot_in_range: "m_slots \<noteq> [] \<Longrightarrow> Hash key mod length m_slots < length m_slots"
  by simp

text \<open>
  C10.  Without interleaving, \<open>ConcurrentMapContainer::insert(entry)\<close> and
  \<open>ConcurrentSet::insert(key)\<close> return true exactly when the key was not present
  (\<open>count\<close> was 0), and then add the binding and nothing else; when the key was present they
  return false and leave the container, and so the value mapped to the key, unchanged.
  \<open>insert_or_assign\<close> is the operation that overwrites: after it the key maps to the new
  value, and on an absent key \<open>insert\<close> leaves the same container as it does.
\<close>

theorem concurrent_insert_never_overwrites:
  assumes "m_slots \<noteq> []" and "s_slots \<noteq> []"
  shows
    "fst (ConcurrentMapContainer_insert Hash (k, v) m_slots)
       = (ConcurrentMapContainer_count Hash k m_slots = 0)
     \<and> (ConcurrentMapContainer_count Hash k m_slots \<noteq> 0 \<longrightarrow>
          snd (ConcurrentMapContainer_insert Hash (k, v) m_slots) = m_slots)
     \<and> (ConcurrentMapContainer_count Hash k m_slots = 0 \<longrightarrow>
          snd (ConcurrentMapContainer_insert Hash (k, v) m_slots)
            = ConcurrentMapContainer_insert_or_assign Hash (k, v) m_slots
          \<and> ConcurrentMapContainer_at Hash k
               (snd (ConcurrentMapContainer_insert Hash (k, v) m_slots)) = Inr v
          \<and> (\<forall>k'. k' \<noteq> k \<longrightarrow>
                ConcurrentMapContainer_at Hash k'
                  (snd (ConcurrentMapContainer_insert Hash (k, v) m_slots))
                = ConcurrentMapContainer_at Hash k' m_slots))
     \<and> ConcurrentMapContainer_at Hash k
          (ConcurrentMapContainer_insert_or_assign Hash (k, v) m_slots) = Inr v
     \<and> fst (ConcurrentSet_insert Hash k s_slots) = (ConcurrentSet_count Hash k s_slots = 0)
     \<and> (ConcurrentSet_count Hash k s_slots \<noteq> 0 \<longrightarrow>
          snd (ConcurrentSet_insert Hash k s_slots) = s_slots)
     \<and> (ConcurrentSet_count Hash k s_slots = 0 \<longrightarrow>
          ConcurrentSet_count Hash k (snd (ConcurrentSet_insert Hash k s_slots)) = 1
          \<and> (\<forall>k'. k' \<noteq> k \<longrightarrow>
                ConcurrentSet_count Hash k' (snd (ConcurrentSet_insert Hash k s_slots))
                = ConcurrentSet_count Hash k' s_slots))"
proof -
  let ?i = "Hash k mod length m_slots"
  let ?j = "Hash k mod length s_slots"
  have i: "?i < length m_slots" and j: "?j < length s_slots"
    using assms by simp_all
  have ins_m: "ConcurrentMapContainer_insert Hash (k, v) m_slots =
                 (if (m_slots ! ?i) k = None
                  then (True, m_slots[?i := (m_slots ! ?i)(k \<mapsto> v)])
                  else (False, m_slots))"
    by (simp add: ConcurrentMapContainer_insert_def unordered_map_insert_def Let_def)
  have ins_s: "ConcurrentSet_insert Hash k s_slots =
                 (if k \<in> s_slots ! ?j
                  then (False, s_slots)
                  else (True, s_slots[?j := insert k (s_slots ! ?j)]))"
    by (simp add: ConcurrentSet_insert_def unordered_set_insert_def Let_def)
  have other_m: "ConcurrentMapContainer_at Hash k' (m_slots[?i := (m_slots ! ?i)(k \<mapsto> v)])
                   = ConcurrentMapContainer_at Hash k' m_slots" if "k' \<noteq> k" for k'
    using that i
    by (cases "Hash k' mod length m_slots = ?i")
       (simp_all add: ConcurrentMapContainer_at_def Let_def)
  have self_m: "ConcurrentMapContainer_at Hash k (m_slots[?i := (m_slots ! ?i)(k \<mapsto> v)]) = Inr v"
    using i by (simp add: ConcurrentMapContainer_at_def Let_def)
  have other_s: "ConcurrentSet_count Hash k' (s_slots[?j := insert k (s_slots ! ?j)])
                   = ConcurrentSet_count Hash k' s_slots" if "k' \<noteq> k" for k'
    using that j
    by (cases "Hash k' mod length s_slots = ?j")
       (simp_all add: ConcurrentSet_count_def Let_def)
  have self_s: "ConcurrentSet_count Hash k (s_slots[?j := insert k (s_slots ! ?j)]) = 1"
    using j by (simp add: ConcurrentSet_count_def Let_def)
  have cnt_m: "(ConcurrentMapContainer_count Hash k m_slots = 0) = ((m_slots ! ?i) k = None)"
    by (simp add: ConcurrentMapContainer_count_def Let_def)
  have cnt_s: "(ConcurrentSet_count Hash k s_slots = 0) = (k \<notin> s_slots ! ?j)"
    by (simp add: ConcurrentSet_count_def Let_def)
  have ioa: "ConcurrentMapContainer_insert_or_assign Hash (k, v) m_slots
               = m_slots[?i := (m_slots ! ?i)(k \<mapsto> v)]"
    by (simp add: ConcurrentMapContainer_insert_or_assign_def Let_def)
  show ?thesis
    unfolding ins_m ins_s cnt_m cnt_s ioa
    using other_m other_s self_m self_s by simp
qed

theorem concurrent_insert_never_overwrites_witness:
  "[Map.empty, [1 \<mapsto> True]] \<noteq> [] \<and> [{}, {1::nat}] \<noteq> []
   \<and> fst (ConcurrentMapContainer_insert (\<lambda>k::nat. k) (1, False) [Map.empty, [1 \<mapsto> True]]) = False
   \<and> snd (ConcurrentMapContainer_insert (\<lambda>k::nat. k) (1, False) [Map.empty, [1 \<mapsto> True]])
       = [Map.empty, [1 \<mapsto> True]]
   \<and> fst (ConcurrentSet_insert (\<lambda>k::nat. k) 1 [{}, {1::nat}]) = False
   \<and> snd (ConcurrentSet_insert (\<lambda>k::nat. k) 1 [{}, {1::nat}]) = [{}, {1::nat}]"
  using concurrent_insert_never_overwrites
          [of "[Map.empty, [1 \<mapsto> True]]" "[{}, {1::nat}]" "\<lambda>k::nat. k" 1 False]
  by (simp add: ConcurrentMapContainer_count_def ConcurrentSet_count_def Let_def)

section \<open>Proofs: CFG inliner, registers\<close>

lemma shift_bounds:
  fixes r c n :: reg_t
  assumes "r < n" and "unat c + unat n < 2 ^ 32"
  shows "c \<le> r + c" and "r + c < c + n"
proof -
  have rn: "unat r < unat n" using assms(1) by (simp add: word_less_nat_alt)
  have 1: "unat (r + c) = unat r + unat c"
    using rn assms(2) by (intro unat_add_lem [THEN iffD1]) simp
  have 2: "unat (c + n) = unat c + unat n"
    using assms(2) by (intro unat_add_lem [THEN iffD1]) simp
  show "c \<le> r + c" by (simp add: word_le_nat_alt 1)
  show "r + c < c + n" using rn by (simp add: word_less_nat_alt 1 2)
qed

lemma no_wrap_le:
  fixes r c n :: reg_t
  assumes "r < c" and "unat c + unat n < 2 ^ 32"
  shows "r < c + n"
proof -
  have "unat (c + n) = unat c + unat n"
    using assms(2) by (intro unat_add_lem [THEN iffD1]) simp
  with assms(1) show ?thesis by (simp add: word_less_nat_alt)
qed

lemma move_params_ok:
  assumes "\<forall>p\<in>set ps. is_load_param (opcode p)" and "\<forall>p\<in>set ps. dest p \<noteq> None"
    and "i + length ps \<le> length args"
  shows "\<exists>moves. move_params ps args i = Inr moves \<and> length moves = length ps \<and>
           (\<forall>k<length ps.
              load_param_to_move (opcode (ps ! k)) = Inr (opcode (moves ! k)) \<and>
              srcs (moves ! k) = [args ! (i + k)] \<and> dest (moves ! k) = dest (ps ! k))"
  using assms
proof (induction ps arbitrary: i)
  case Nil
  then show ?case by simp
next
  case (Cons p ps)
  from Cons.prems obtain op where op: "load_param_to_move (opcode p) = Inr op"
    by (cases "opcode p") auto
  from Cons.prems obtain d where d: "dest p = Some d" by auto
  from Cons.prems have "\<forall>p\<in>set ps. is_load_param (opcode p)" "\<forall>p\<in>set ps. dest p \<noteq> None"
    "Suc i + length ps \<le> length args"
    by auto
  from Cons.IH [OF this] obtain moves where
    m: "move_params ps args (Suc i) = Inr moves" "length moves = length ps"
       "\<forall>k<length ps. load_param_to_move (opcode (ps ! k)) = Inr (opcode (moves ! k)) \<and>
              srcs (moves ! k) = [args ! (Suc i + k)] \<and> dest (moves ! k) = dest (ps ! k)"
    by blast
  have lt: "i < length args" using Cons.prems by simp
  let ?mv = "\<lparr>opcode = op, srcs = [args ! i], dest = Some d\<rparr>"
  have res: "move_params (p # ps) args i = Inr (?mv # moves)"
    using op d m(1) lt by simp
  have "\<forall>k<length (p # ps).
          load_param_to_move (opcode ((p # ps) ! k)) = Inr (opcode ((?mv # moves) ! k)) \<and>
          srcs ((?mv # moves) ! k) = [args ! (i + k)] \<and> dest ((?mv # moves) ! k) = dest ((p # ps) ! k)"
  proof (intro allI impI)
    fix k assume "k < length (p # ps)"
    then show "load_param_to_move (opcode ((p # ps) ! k)) = Inr (opcode ((?mv # moves) ! k)) \<and>
          srcs ((?mv # moves) ! k) = [args ! (i + k)] \<and> dest ((?mv # moves) ! k) = dest ((p # ps) ! k)"
      using op d m(3) by (cases k) auto
  qed
  with res m(2) show ?case by auto
qed

lemma move_params_out_of_range:
  assumes "\<forall>p\<in>set ps. is_load_param (opcode p)" and "\<forall>p\<in>set ps. dest p \<noteq> None"
    and "length args < i + length ps" and "i \<le> length args"
  shows "move_params ps args i = Inl OutOfRange"
  using assms
proof (induction ps arbitrary: i)
  case Nil
  then show ?case by simp
next
  case (Cons p ps)
  from Cons.prems obtain op where op: "load_param_to_move (opcode p) = Inr op"
    by (cases "opcode p") auto
  from Cons.prems obtain d where d: "dest p = Some d" by auto
  show ?case
  proof (cases "i < length args")
    case True
    with Cons.prems have "length args < Suc i + length ps" "Suc i \<le> length args" by simp_all
    with Cons.IH [of "Suc i"] Cons.prems have "move_params ps args (Suc i) = Inl OutOfRange" by simp
    with op d True show ?thesis by simp
  next
    case False
    with op show ?thesis by simp
  qed
qed

lemma move_params_not_return:
  "move_params ps args i = Inr moves \<Longrightarrow> \<forall>m\<in>set moves. \<not> is_return (opcode m)"
proof (induction ps arbitrary: i moves)
  case Nil
  then show ?case by simp
next
  case (Cons p ps)
  then show ?case
    by (cases "opcode p") (auto split: sum.splits if_splits option.splits)
qed

lemma get_param_instructions_remap:
  "get_param_instructions (remap_registers callee c) = remap_registers (get_param_instructions callee) c"
  by (simp add: get_param_instructions_def remap_registers_def takeWhile_map remap_insn_def comp_def)

lemma params_are_load_params:
  "\<forall>p\<in>set (get_param_instructions callee). is_load_param (opcode p)"
  by (auto simp: get_param_instructions_def dest: set_takeWhileD)

lemma move_return_reg_prefix:
  assumes "\<forall>m\<in>set ms. \<not> is_return (opcode m)"
  shows "move_return_reg (ms @ rest) ret =
           (case move_return_reg rest ret of Inl e \<Rightarrow> Inl e | Inr rest' \<Rightarrow> Inr (ms @ rest'))"
  using assms by (induction ms) (auto split: sum.splits)


lemma return_to_move_ok: "is_return op \<Longrightarrow> \<exists>op'. return_to_move op = Inr op'"
  by (cases op) auto

lemma move_return_reg_ok:
  assumes "returns_have_src xs"
  shows "\<exists>ys. move_return_reg xs ret = Inr ys \<and>
           (\<forall>x\<in>set xs. \<not> is_return (opcode x) \<longrightarrow> x \<in> set ys) \<and>
           (\<forall>y\<in>set ys. (y \<in> set xs \<and> \<not> is_return (opcode y)) \<or>
              (\<exists>x\<in>set xs. is_return (opcode x) \<and> srcs x \<noteq> [] \<and> dest y = ret \<and>
                 srcs y = [hd (srcs x)] \<and> return_to_move (opcode x) = Inr (opcode y)))"
  using assms
proof (induction xs)
  case Nil
  then show ?case by simp
next
  case (Cons x xs)
  then have "returns_have_src xs" by (simp add: returns_have_src_def)
  from Cons.IH [OF this] obtain ys where
    ys: "move_return_reg xs ret = Inr ys"
        "\<forall>x\<in>set xs. \<not> is_return (opcode x) \<longrightarrow> x \<in> set ys"
        "\<forall>y\<in>set ys. (y \<in> set xs \<and> \<not> is_return (opcode y)) \<or>
              (\<exists>x\<in>set xs. is_return (opcode x) \<and> srcs x \<noteq> [] \<and> dest y = ret \<and>
                 srcs y = [hd (srcs x)] \<and> return_to_move (opcode x) = Inr (opcode y))"
    by blast
  show ?case
  proof (cases "is_return (opcode x)")
    case False
    with ys show ?thesis by auto
  next
    case True
    then obtain op where op: "return_to_move (opcode x) = Inr op"
      using return_to_move_ok by blast
    show ?thesis
    proof (cases "op \<noteq> OPCODE_NOP \<and> ret \<noteq> None")
      case False
      with True op ys show ?thesis by auto
    next
      case keep: True
      with op have "opcode x \<noteq> OPCODE_RETURN_VOID" by auto
      with Cons.prems True have "srcs x \<noteq> []" by (simp add: returns_have_src_def)
      then obtain s0 ss where ss: "srcs x = s0 # ss" by (cases "srcs x") auto
      let ?mv = "\<lparr>opcode = op, srcs = [s0], dest = ret\<rparr>"
      have res: "move_return_reg (x # xs) ret = Inr (?mv # ys)"
        using True op keep ss ys(1) by simp
      have "\<exists>x'\<in>set (x # xs). is_return (opcode x') \<and> srcs x' \<noteq> [] \<and> dest ?mv = ret \<and>
                 srcs ?mv = [hd (srcs x')] \<and> return_to_move (opcode x') = Inr (opcode ?mv)"
        using True op ss by auto
      with res ys(2,3) True show ?thesis by auto
    qed
  qed
qed

lemma returns_have_src_remap:
  "returns_have_src xs \<Longrightarrow> returns_have_src (remap_registers xs c)"
  by (induction xs) (auto simp: returns_have_src_def remap_registers_def remap_insn_def)

lemma returns_have_src_drop: "returns_have_src xs \<Longrightarrow> returns_have_src (drop n xs)"
  by (auto simp: returns_have_src_def list_all_iff dest: in_set_dropD)

lemma maybe_split_ok:
  assumes "caller_editable caller"
    and "inline_after plugin \<and> site_last_of_block caller \<longrightarrow> site_block_goes_to caller"
  shows "maybe_split plugin caller = Inr (split_site plugin caller)"
  using assms
  by (auto simp: split_site_def maybe_split_def maybe_split_block_def
        maybe_split_block_before_def split_block_def Let_def)

lemma split_site_registers_size:
  "caller_registers_size (split_site plugin caller) = caller_registers_size caller"
  by (simp add: split_site_def maybe_split_def maybe_split_block_def
        maybe_split_block_before_def split_block_def Let_def)

lemma inline_cfg_steps:
  assumes "site_cfg_is_caller caller" and "caller_editable caller"
    and "inline_after plugin \<and> site_last_of_block caller \<longrightarrow> site_block_goes_to caller"
    and "update_before_reg_remap plugin (split_site plugin caller, callee_orig) = (caller1, callee1)"
  shows "inline_cfg plugin recompute caller callee_orig =
           (case register_passes plugin caller1 callee1 of
              Inl e \<Rightarrow> Inl e
            | Inr staged \<Rightarrow>
                merge_and_finish plugin recompute (caller_registers_size caller1)
                  (registers_size callee1) (update_after_reg_remap plugin staged))"
  unfolding inline_cfg_def maybe_split_ok [OF assms(2,3)]
  using assms(1,4) by simp

lemma register_passes_out_of_range:
  assumes "length (inline_args plugin caller) < length (get_param_instructions (insns callee))"
    and "\<forall>p\<in>set (get_param_instructions (insns callee)). dest p \<noteq> None"
  shows "register_passes plugin caller callee = Inl OutOfRange"
proof -
  let ?c = "caller_registers_size caller"
  let ?ps = "get_param_instructions (insns callee)"
  have lp: "\<forall>p\<in>set (remap_registers ?ps ?c). is_load_param (opcode p)"
    using params_are_load_params [of "insns callee"]
    by (auto simp: remap_registers_def remap_insn_def)
  have ds: "\<forall>p\<in>set (remap_registers ?ps ?c). dest p \<noteq> None"
    using assms(2) by (auto simp: remap_registers_def remap_insn_def)
  have len: "length (remap_registers ?ps ?c) = length ?ps"
    by (simp add: remap_registers_def)
  from move_params_out_of_range [OF lp ds, of "inline_args plugin caller" 0] assms(1) len
  have "move_params (remap_registers ?ps ?c) (inline_args plugin caller) 0 = Inl OutOfRange"
    by simp
  then show ?thesis
    unfolding register_passes_def move_arg_regs_def Let_def get_param_instructions_remap
    by simp
qed

lemma register_passes_ok:
  assumes enough: "length (get_param_instructions (insns callee)) \<le> length (inline_args plugin caller)"
    and dests: "\<forall>p\<in>set (get_param_instructions (insns callee)). dest p \<noteq> None"
    and rets: "returns_have_src (insns callee)"
    and mres: "move_result_has_dest caller"
  shows "\<exists>moves body.
           move_params (remap_registers (get_param_instructions (insns callee))
                          (caller_registers_size caller))
                       (inline_args plugin caller) 0 = Inr moves \<and>
           move_return_reg
             (remap_registers (drop (length (get_param_instructions (insns callee))) (insns callee))
                (caller_registers_size caller))
             (inline_return_reg plugin caller) = Inr body \<and>
           register_passes plugin caller callee =
             Inr (remove_move_result plugin caller, callee\<lparr>insns := moves @ body\<rparr>)"
proof -
  let ?crs = "caller_registers_size caller"
  let ?ps = "get_param_instructions (insns callee)"
  let ?N = "length ?ps"
  let ?args = "inline_args plugin caller"
  let ?ret = "inline_return_reg plugin caller"
  have lp: "\<forall>p\<in>set (remap_registers ?ps ?crs). is_load_param (opcode p)"
    using params_are_load_params [of "insns callee"]
    by (auto simp: remap_registers_def remap_insn_def)
  have ds: "\<forall>p\<in>set (remap_registers ?ps ?crs). dest p \<noteq> None"
    using dests by (auto simp: remap_registers_def remap_insn_def)
  have len: "length (remap_registers ?ps ?crs) = ?N"
    by (simp add: remap_registers_def)
  from move_params_ok [OF lp ds, of 0 ?args] enough len
  obtain moves where moves: "move_params (remap_registers ?ps ?crs) ?args 0 = Inr moves"
    by auto
  have nr: "\<forall>m\<in>set moves. \<not> is_return (opcode m)"
    using move_params_not_return [OF moves] .
  have "returns_have_src (remap_registers (drop ?N (insns callee)) ?crs)"
    using rets by (intro returns_have_src_remap returns_have_src_drop)
  from move_return_reg_ok [OF this, of ?ret]
  obtain body where
    body: "move_return_reg (remap_registers (drop ?N (insns callee)) ?crs) ?ret = Inr body"
    by blast
  have mar: "move_arg_regs (remap_registers (insns callee) ?crs) ?args =
               Inr (moves @ remap_registers (drop ?N (insns callee)) ?crs)"
    unfolding move_arg_regs_def Let_def get_param_instructions_remap len moves
    by (simp add: remap_registers_def drop_map)
  have mrr: "move_return_reg (moves @ remap_registers (drop ?N (insns callee)) ?crs) ?ret =
               Inr (moves @ body)"
    using move_return_reg_prefix [OF nr] body by simp
  have ret_eq: "return_register plugin caller = Inr ?ret"
    using mres
    by (auto simp: return_register_def inline_return_reg_def move_result_has_dest_def
          split: option.splits)
  have res: "register_passes plugin caller callee =
          Inr (remove_move_result plugin caller, callee\<lparr>insns := moves @ body\<rparr>)"
    unfolding register_passes_def Let_def
    by (simp add: mar ret_eq mrr)
  from moves body res show ?thesis by blast
qed

lemma param_nth:
  "i < length (get_param_instructions callee) \<Longrightarrow> get_param_instructions callee ! i = callee ! i"
  by (simp add: get_param_instructions_def takeWhile_nth)

lemma body_operands:
  assumes body: "move_return_reg (remap_registers xs c) ret = Inr body"
    and rets: "returns_have_src xs"
  shows "\<forall>x\<in>set xs. \<not> is_return (opcode x) \<longrightarrow> remap_insn c x \<in> set body"
    and "\<forall>y\<in>set body.
           (\<exists>x\<in>set xs. \<not> is_return (opcode x) \<and> y = remap_insn c x) \<or>
           (\<exists>x\<in>set xs. is_return (opcode x) \<and> srcs x \<noteq> [] \<and> dest y = ret \<and>
                        srcs y = [hd (srcs x) + c])"
proof -
  from move_return_reg_ok [OF returns_have_src_remap [OF rets], of c ret] body
  have keep: "\<forall>x\<in>set (remap_registers xs c). \<not> is_return (opcode x) \<longrightarrow> x \<in> set body"
    and cls: "\<forall>y\<in>set body. (y \<in> set (remap_registers xs c) \<and> \<not> is_return (opcode y)) \<or>
              (\<exists>x\<in>set (remap_registers xs c). is_return (opcode x) \<and> srcs x \<noteq> [] \<and> dest y = ret \<and>
                 srcs y = [hd (srcs x)] \<and> return_to_move (opcode x) = Inr (opcode y))"
    by auto
  show "\<forall>x\<in>set xs. \<not> is_return (opcode x) \<longrightarrow> remap_insn c x \<in> set body"
    using keep by (auto simp: remap_registers_def remap_insn_def)
  show "\<forall>y\<in>set body.
           (\<exists>x\<in>set xs. \<not> is_return (opcode x) \<and> y = remap_insn c x) \<or>
           (\<exists>x\<in>set xs. is_return (opcode x) \<and> srcs x \<noteq> [] \<and> dest y = ret \<and>
                        srcs y = [hd (srcs x) + c])"
  proof
    fix y assume "y \<in> set body"
    with cls consider
        (a) "y \<in> set (remap_registers xs c)" "\<not> is_return (opcode y)"
      | (b) x' where "x' \<in> set (remap_registers xs c)" "is_return (opcode x')" "srcs x' \<noteq> []"
                     "dest y = ret" "srcs y = [hd (srcs x')]"
      by blast
    then show "(\<exists>x\<in>set xs. \<not> is_return (opcode x) \<and> y = remap_insn c x) \<or>
           (\<exists>x\<in>set xs. is_return (opcode x) \<and> srcs x \<noteq> [] \<and> dest y = ret \<and>
                        srcs y = [hd (srcs x) + c])"
    proof cases
      case a
      then obtain x where "x \<in> set xs" "y = remap_insn c x"
        by (auto simp: remap_registers_def)
      with a(2) show ?thesis by (auto simp: remap_insn_def)
    next
      case b
      from b(1) obtain x where x: "x \<in> set xs" "x' = remap_insn c x"
        by (auto simp: remap_registers_def)
      with b(2,3) have "is_return (opcode x)" "srcs x \<noteq> []"
        by (auto simp: remap_insn_def)
      moreover from this b(5) x(2) have "srcs y = [hd (srcs x) + c]"
        by (simp add: remap_insn_def hd_map)
      ultimately show ?thesis using x(1) b(4) by blast
    qed
  qed
qed

lemma remap_insn_bounds:
  assumes "\<forall>r\<in>registers_of x. r < n" and "unat c + unat n < 2 ^ 32"
  shows "\<forall>r\<in>registers_of (remap_insn c x). c \<le> r \<and> r < c + n"
  using assms shift_bounds [of _ n c]
  by (auto simp: registers_of_def remap_insn_def)

lemma load_param_to_move_wide: "load_param_to_move op = Inr op' \<Longrightarrow> is_wide op' = is_wide op"
  by (cases op) (auto simp: is_wide_def)

lemma reg_span_shift: "reg_span op (d + c) = (\<lambda>r. r + c) ` reg_span op d"
  by (simp add: reg_span_def ac_simps)

lemma exec_move_frame:
  assumes "\<forall>d. dest m = Some d \<longrightarrow> r \<notin> reg_span (opcode m) d"
  shows "exec_move m regs r = regs r"
  using assms
  by (auto simp: exec_move_def reg_span_def split: option.splits list.splits if_splits)

lemma exec_moves_Cons: "exec_moves (m # ms) regs = exec_moves ms (exec_move m regs)"
  by (simp add: exec_moves_def)

lemma exec_moves_frame:
  assumes "\<forall>m\<in>set ms. \<forall>d. dest m = Some d \<longrightarrow> r \<notin> reg_span (opcode m) d"
  shows "exec_moves ms regs r = regs r"
  using assms
proof (induction ms arbitrary: regs)
  case Nil
  then show ?case by (simp add: exec_moves_def)
next
  case (Cons m ms)
  then have "exec_moves ms (exec_move m regs) r = exec_move m regs r" by simp
  also from Cons.prems have "exec_move m regs r = regs r" by (intro exec_move_frame) simp
  finally show ?case by (simp add: exec_moves_Cons)
qed

lemma exec_move_value:
  assumes "srcs m = [s]" and "dest m = Some d"
  shows "exec_move m regs d = regs s"
    and "is_wide (opcode m) \<Longrightarrow> exec_move m regs (d + 1) = regs (s + 1)"
  using assms by (simp_all add: exec_move_def)

lemma exec_moves_value:
  assumes wf: "\<forall>m\<in>set ms. \<exists>s d. srcs m = [s] \<and> dest m = Some d"
    and low: "\<forall>m\<in>set ms. \<forall>s. srcs m = [s] \<longrightarrow> (\<forall>r\<in>reg_span (opcode m) s. r < c)"
    and high: "\<forall>m\<in>set ms. \<forall>d. dest m = Some d \<longrightarrow> (\<forall>r\<in>reg_span (opcode m) d. c \<le> r)"
    and dis: "\<forall>i<length ms. \<forall>j<length ms. i \<noteq> j \<longrightarrow>
                (\<forall>d d'. dest (ms ! i) = Some d \<longrightarrow> dest (ms ! j) = Some d' \<longrightarrow>
                   reg_span (opcode (ms ! i)) d \<inter> reg_span (opcode (ms ! j)) d' = {})"
    and i: "i < length ms" "srcs (ms ! i) = [s]" "dest (ms ! i) = Some d"
  shows "exec_moves ms regs d = regs s
         \<and> (is_wide (opcode (ms ! i)) \<longrightarrow> exec_moves ms regs (d + 1) = regs (s + 1))"
  using assms
proof (induction ms arbitrary: i regs)
  case Nil
  then show ?case by simp
next
  case (Cons m ms)
  show ?case
  proof (cases i)
    case 0
    with Cons.prems have sm: "srcs m = [s]" and dm: "dest m = Some d" by simp_all
    have later: "\<forall>m'\<in>set ms. \<forall>d'. dest m' = Some d' \<longrightarrow> r \<notin> reg_span (opcode m') d'"
      if "r \<in> reg_span (opcode m) d" for r
    proof (intro ballI allI impI)
      fix m' d' assume m': "m' \<in> set ms" and d': "dest m' = Some d'"
      from m' obtain k where k: "k < length ms" "m' = ms ! k" by (auto simp: in_set_conv_nth)
      from Cons.prems(4) [rule_format, of 0 "Suc k" d d'] k dm d'
      have "reg_span (opcode m) d \<inter> reg_span (opcode m') d' = {}" by simp
      with that show "r \<notin> reg_span (opcode m') d'" by blast
    qed
    have "d \<in> reg_span (opcode m) d" by (simp add: reg_span_def)
    from exec_moves_frame [OF later [OF this], of "exec_move m regs"]
    have 1: "exec_moves (m # ms) regs d = regs s"
      by (simp add: exec_moves_Cons exec_move_value(1) [OF sm dm])
    have 2: "exec_moves (m # ms) regs (d + 1) = regs (s + 1)" if w: "is_wide (opcode m)"
    proof -
      from w have "d + 1 \<in> reg_span (opcode m) d" by (simp add: reg_span_def)
      from exec_moves_frame [OF later [OF this], of "exec_move m regs"] w show ?thesis
        by (simp add: exec_moves_Cons exec_move_value(2) [OF sm dm])
    qed
    from 1 2 0 show ?thesis by simp
  next
    case (Suc j)
    with Cons.prems have j: "j < length ms" "srcs (ms ! j) = [s]" "dest (ms ! j) = Some d"
      by simp_all
    have wf': "\<forall>m\<in>set ms. \<exists>s d. srcs m = [s] \<and> dest m = Some d" using Cons.prems(1) by simp
    have low': "\<forall>m\<in>set ms. \<forall>s. srcs m = [s] \<longrightarrow> (\<forall>r\<in>reg_span (opcode m) s. r < c)"
      using Cons.prems(2) by simp
    have high': "\<forall>m\<in>set ms. \<forall>d. dest m = Some d \<longrightarrow> (\<forall>r\<in>reg_span (opcode m) d. c \<le> r)"
      using Cons.prems(3) by simp
    have dis': "\<forall>i<length ms. \<forall>j<length ms. i \<noteq> j \<longrightarrow>
                (\<forall>d d'. dest (ms ! i) = Some d \<longrightarrow> dest (ms ! j) = Some d' \<longrightarrow>
                   reg_span (opcode (ms ! i)) d \<inter> reg_span (opcode (ms ! j)) d' = {})"
    proof (intro allI impI)
      fix a b d d'
      assume "a < length ms" "b < length ms" "a \<noteq> b"
        "dest (ms ! a) = Some d" "dest (ms ! b) = Some d'"
      with Cons.prems(4) [rule_format, of "Suc a" "Suc b" d d']
      show "reg_span (opcode (ms ! a)) d \<inter> reg_span (opcode (ms ! b)) d' = {}" by simp
    qed
    from Cons.IH [OF wf' low' high' dis' j, of "exec_move m regs"]
    have ih: "exec_moves ms (exec_move m regs) d = exec_move m regs s"
      "is_wide (opcode (ms ! j)) \<longrightarrow> exec_moves ms (exec_move m regs) (d + 1) = exec_move m regs (s + 1)"
      by simp_all
    from j(1) have mem: "ms ! j \<in> set ms" by simp
    have untouched: "exec_move m regs r = regs r" if "r \<in> reg_span (opcode (ms ! j)) s" for r
    proof (rule exec_move_frame, intro allI impI)
      fix dm assume dm: "dest m = Some dm"
      from low' mem j(2) that have "r < c" by blast
      moreover from Cons.prems(3) dm have "\<forall>r'\<in>reg_span (opcode m) dm. c \<le> r'" by simp
      ultimately show "r \<notin> reg_span (opcode m) dm" by auto
    qed
    have "s \<in> reg_span (opcode (ms ! j)) s" by (simp add: reg_span_def)
    from untouched [OF this] ih(1) have 1: "exec_moves (m # ms) regs d = regs s"
      by (simp add: exec_moves_Cons)
    have 2: "exec_moves (m # ms) regs (d + 1) = regs (s + 1)" if w: "is_wide (opcode (ms ! j))"
    proof -
      from w have "s + 1 \<in> reg_span (opcode (ms ! j)) s" by (simp add: reg_span_def)
      from untouched [OF this] ih(2) w show ?thesis by (simp add: exec_moves_Cons)
    qed
    from 1 2 Suc show ?thesis by simp
  qed
qed


lemma reg_span_wide: "is_wide op = is_wide op' \<Longrightarrow> reg_span op = reg_span op'"
  by (simp add: reg_span_def fun_eq_iff)

lemma threaded_values:
  fixes c n :: reg_t
  assumes len: "length moves = length ps"
    and each: "\<forall>k<length ps.
                 load_param_to_move (opcode (ps ! k)) = Inr (opcode (moves ! k))
                 \<and> srcs (moves ! k) = [args ! k]
                 \<and> dest (moves ! k) = map_option (\<lambda>r. r + c) (dest (ps ! k))"
    and dests: "\<forall>p\<in>set ps. dest p \<noteq> None"
    and args: "args_in_caller ps args c"
    and params: "params_in_callee ps n"
    and distinct: "params_distinct ps"
    and no_wrap: "unat c + unat n < 2 ^ 32"
    and i: "i < length moves" "dest (moves ! i) = Some d"
  shows "exec_moves moves regs d = regs (args ! i)
         \<and> (is_wide (opcode (moves ! i)) \<longrightarrow> exec_moves moves regs (d + 1) = regs (args ! i + 1))"
proof -
  have at: "\<exists>dk. dest (ps ! k) = Some dk \<and> srcs (moves ! k) = [args ! k]
              \<and> dest (moves ! k) = Some (dk + c)
              \<and> reg_span (opcode (moves ! k)) = reg_span (opcode (ps ! k))
              \<and> param_regs (ps ! k) = reg_span (opcode (ps ! k)) dk"
    if "k < length ps" for k
  proof -
    from that dests obtain dk where dk: "dest (ps ! k) = Some dk" by fastforce
    from each that have "load_param_to_move (opcode (ps ! k)) = Inr (opcode (moves ! k))" by simp
    then have "is_wide (opcode (moves ! k)) = is_wide (opcode (ps ! k))"
      by (rule load_param_to_move_wide)
    then have "reg_span (opcode (moves ! k)) = reg_span (opcode (ps ! k))"
      by (rule reg_span_wide)
    with each that dk show ?thesis by (simp add: param_regs_def)
  qed
  have wf: "\<forall>m\<in>set moves. \<exists>s d. srcs m = [s] \<and> dest m = Some d"
  proof
    fix m assume "m \<in> set moves"
    then obtain k where "k < length ps" "m = moves ! k" using len by (auto simp: in_set_conv_nth)
    with at [of k] show "\<exists>s d. srcs m = [s] \<and> dest m = Some d" by auto
  qed
  have low: "\<forall>m\<in>set moves. \<forall>s. srcs m = [s] \<longrightarrow> (\<forall>r\<in>reg_span (opcode m) s. r < c)"
  proof (intro ballI allI impI)
    fix m s r assume "m \<in> set moves" and s: "srcs m = [s]" and r: "r \<in> reg_span (opcode m) s"
    then obtain k where k: "k < length ps" "m = moves ! k" using len by (auto simp: in_set_conv_nth)
    from at [OF k(1)] k(2) s r have "r \<in> reg_span (opcode (ps ! k)) (args ! k)" by auto
    with args k(1) show "r < c" by (auto simp: args_in_caller_def)
  qed
  have high: "\<forall>m\<in>set moves. \<forall>d. dest m = Some d \<longrightarrow> (\<forall>r\<in>reg_span (opcode m) d. c \<le> r)"
  proof (intro ballI allI impI)
    fix m d r assume "m \<in> set moves" and d: "dest m = Some d" and r: "r \<in> reg_span (opcode m) d"
    then obtain k where k: "k < length ps" "m = moves ! k" using len by (auto simp: in_set_conv_nth)
    from at [OF k(1)] obtain dk where dk: "dest (moves ! k) = Some (dk + c)"
      "reg_span (opcode (moves ! k)) = reg_span (opcode (ps ! k))"
      "param_regs (ps ! k) = reg_span (opcode (ps ! k)) dk"
      by blast
    from dk(1,2) k(2) d r have "r \<in> reg_span (opcode (ps ! k)) (dk + c)" by simp
    then obtain r0 where r0: "r0 \<in> reg_span (opcode (ps ! k)) dk" "r = r0 + c"
      by (auto simp: reg_span_shift)
    with dk(3) params k(1) have "r0 < n" by (auto simp: params_in_callee_def)
    from shift_bounds(1) [OF this no_wrap] r0(2) show "c \<le> r" by simp
  qed
  have dis: "\<forall>i<length moves. \<forall>j<length moves. i \<noteq> j \<longrightarrow>
                (\<forall>d d'. dest (moves ! i) = Some d \<longrightarrow> dest (moves ! j) = Some d' \<longrightarrow>
                   reg_span (opcode (moves ! i)) d \<inter> reg_span (opcode (moves ! j)) d' = {})"
  proof (intro allI impI)
    fix a b d d'
    assume a: "a < length moves" and b: "b < length moves" and ab: "a \<noteq> b"
      and d: "dest (moves ! a) = Some d" and d': "dest (moves ! b) = Some d'"
    from at [of a] a len obtain da where da: "dest (moves ! a) = Some (da + c)"
      "reg_span (opcode (moves ! a)) = reg_span (opcode (ps ! a))"
      "param_regs (ps ! a) = reg_span (opcode (ps ! a)) da"
      by auto
    from at [of b] b len obtain db where db: "dest (moves ! b) = Some (db + c)"
      "reg_span (opcode (moves ! b)) = reg_span (opcode (ps ! b))"
      "param_regs (ps ! b) = reg_span (opcode (ps ! b)) db"
      by auto
    from distinct a b ab len have "param_regs (ps ! a) \<inter> param_regs (ps ! b) = {}"
      by (simp add: params_distinct_def)
    with da(3) db(3) have "reg_span (opcode (ps ! a)) da \<inter> reg_span (opcode (ps ! b)) db = {}"
      by simp
    then have "(\<lambda>r. r + c) ` reg_span (opcode (ps ! a)) da
                 \<inter> (\<lambda>r. r + c) ` reg_span (opcode (ps ! b)) db = {}"
      by auto
    with da(1,2) db(1,2) d d'
    show "reg_span (opcode (moves ! a)) d \<inter> reg_span (opcode (moves ! b)) d' = {}"
      by (simp add: reg_span_shift)
  qed
  from at [of i] i len have si: "srcs (moves ! i) = [args ! i]" by auto
  from exec_moves_value [OF wf low high dis i(1) si i(2)] show ?thesis .
qed

text \<open>
  C3 (amended).  Let \<open>caller1\<close> and \<open>callee1\<close> be the caller and the callee copy as the
  plugin's \<open>update_before_reg_remap\<close> hook leaves them, \<open>N\<close> the number of load-param
  instructions of \<open>callee1\<close> and \<open>M\<close> the number of argument registers (the sources of the
  invoke, or the plugin's alternate sources).

  When \<open>N > M\<close>, \<open>srcs.at(M)\<close> throws \<open>std::out_of_range\<close> and nothing is inlined.

  When \<open>N \<le> M\<close>, the register passes succeed: for every \<open>i < N\<close> the \<open>i\<close>-th load-param has
  become a move of the matching kind whose source is the \<open>i\<close>-th argument register and whose
  destination is the load-param's destination register, shifted by the caller's register
  count like every other callee register; every callee instruction that is not a return is
  in the body in remapped form, and a source operand of the body names the destination of
  the \<open>i\<close>-th move exactly when the callee operand it came from named the register of
  parameter \<open>i\<close>.  This callee is what \<open>update_after_reg_remap\<close> receives, and \<open>inline_cfg\<close>
  returns the merge of what that hook returns.  When moreover the argument registers are
  registers of the caller, the parameters are distinct registers of the callee and the sum
  of the two register counts does not wrap around, running the moves on any register file
  leaves in the destination of the \<open>i\<close>-th move the value that argument register \<open>i\<close>
  held (both halves for a wide parameter).
\<close>

theorem inline_cfg_threads_arguments:
  assumes site: "site_cfg_is_caller caller" "caller_editable caller"
      "inline_after plugin \<and> site_last_of_block caller \<longrightarrow> site_block_goes_to caller"
    and before:
      "update_before_reg_remap plugin (split_site plugin caller, callee_orig) = (caller1, callee1)"
    and dests: "\<forall>p\<in>set (get_param_instructions (insns callee1)). dest p \<noteq> None"
  shows "(length (inline_args plugin caller1) < length (get_param_instructions (insns callee1))
            \<longrightarrow> inline_cfg plugin recompute caller callee_orig = Inl OutOfRange)
       \<and> (length (get_param_instructions (insns callee1)) \<le> length (inline_args plugin caller1)
            \<and> returns_have_src (insns callee1) \<and> move_result_has_dest caller1 \<longrightarrow>
          (\<exists>moves body.
              register_passes plugin caller1 callee1 =
                Inr (remove_move_result plugin caller1, callee1\<lparr>insns := moves @ body\<rparr>)
            \<and> inline_cfg plugin recompute caller callee_orig =
                merge_and_finish plugin recompute (caller_registers_size caller1)
                  (registers_size callee1)
                  (update_after_reg_remap plugin
                     (remove_move_result plugin caller1, callee1\<lparr>insns := moves @ body\<rparr>))
            \<and> length moves = length (get_param_instructions (insns callee1))
            \<and> (\<forall>i<length moves.
                  load_param_to_move (opcode (insns callee1 ! i)) = Inr (opcode (moves ! i))
                  \<and> srcs (moves ! i) = [inline_args plugin caller1 ! i]
                  \<and> dest (moves ! i) =
                      map_option (\<lambda>r. r + caller_registers_size caller1) (dest (insns callee1 ! i)))
            \<and> (\<forall>x\<in>set (drop (length moves) (insns callee1)).
                  \<not> is_return (opcode x) \<longrightarrow>
                  remap_insn (caller_registers_size caller1) x \<in> set body)
            \<and> (\<forall>y\<in>set body. \<exists>x\<in>set (drop (length moves) (insns callee1)).
                  length (srcs y) \<le> length (srcs x)
                  \<and> (\<forall>k<length (srcs y). \<forall>i<length moves.
                        (dest (moves ! i) = Some (srcs y ! k))
                        = (dest (insns callee1 ! i) = Some (srcs x ! k))))
            \<and> (args_in_caller (get_param_instructions (insns callee1))
                  (inline_args plugin caller1) (caller_registers_size caller1)
                \<and> params_in_callee (get_param_instructions (insns callee1)) (registers_size callee1)
                \<and> params_distinct (get_param_instructions (insns callee1))
                \<and> unat (caller_registers_size caller1) + unat (registers_size callee1) < 2 ^ 32
                \<longrightarrow>
                (\<forall>regs :: reg_t \<Rightarrow> 'v. \<forall>i<length moves. \<forall>d. dest (moves ! i) = Some d \<longrightarrow>
                   exec_moves moves regs d = regs (inline_args plugin caller1 ! i)
                   \<and> (is_wide (opcode (moves ! i)) \<longrightarrow>
                        exec_moves moves regs (d + 1) = regs (inline_args plugin caller1 ! i + 1))))))"
proof (intro conjI impI)
  note steps = inline_cfg_steps [OF site before, of recompute]
  assume "length (inline_args plugin caller1) < length (get_param_instructions (insns callee1))"
  from register_passes_out_of_range [OF this dests] steps
  show "inline_cfg plugin recompute caller callee_orig = Inl OutOfRange" by simp
next
  note steps = inline_cfg_steps [OF site before, of recompute]
  let ?c = "caller_registers_size caller1"
  let ?ps = "get_param_instructions (insns callee1)"
  let ?N = "length ?ps"
  let ?rest = "drop ?N (insns callee1)"
  let ?args = "inline_args plugin caller1"
  assume "?N \<le> length ?args \<and> returns_have_src (insns callee1) \<and> move_result_has_dest caller1"
  then have enough: "?N \<le> length ?args" and rets: "returns_have_src (insns callee1)"
    and mres: "move_result_has_dest caller1"
    by simp_all
  from register_passes_ok [OF enough dests rets mres]
  obtain moves body where
    moves: "move_params (remap_registers ?ps ?c) ?args 0 = Inr moves"
    and body: "move_return_reg (remap_registers ?rest ?c) (inline_return_reg plugin caller1) = Inr body"
    and res: "register_passes plugin caller1 callee1 =
                Inr (remove_move_result plugin caller1, callee1\<lparr>insns := moves @ body\<rparr>)"
    by blast
  from steps res have fin: "inline_cfg plugin recompute caller callee_orig =
                merge_and_finish plugin recompute ?c (registers_size callee1)
                  (update_after_reg_remap plugin
                     (remove_move_result plugin caller1, callee1\<lparr>insns := moves @ body\<rparr>))"
    by simp
  have lp: "\<forall>p\<in>set (remap_registers ?ps ?c). is_load_param (opcode p)"
    using params_are_load_params [of "insns callee1"]
    by (auto simp: remap_registers_def remap_insn_def)
  have ds: "\<forall>p\<in>set (remap_registers ?ps ?c). dest p \<noteq> None"
    using dests by (auto simp: remap_registers_def remap_insn_def)
  have len: "length (remap_registers ?ps ?c) = ?N"
    by (simp add: remap_registers_def)
  from move_params_ok [OF lp ds, of 0 ?args] enough len moves
  have lm: "length moves = ?N"
    and each: "\<forall>k<?N.
              load_param_to_move (opcode (remap_registers ?ps ?c ! k)) = Inr (opcode (moves ! k)) \<and>
              srcs (moves ! k) = [?args ! k] \<and>
              dest (moves ! k) = dest (remap_registers ?ps ?c ! k)"
    by auto
  have each': "\<forall>k<?N.
                 load_param_to_move (opcode (?ps ! k)) = Inr (opcode (moves ! k))
                 \<and> srcs (moves ! k) = [?args ! k]
                 \<and> dest (moves ! k) = map_option (\<lambda>r. r + ?c) (dest (?ps ! k))"
    using each by (auto simp: remap_registers_def remap_insn_def)
  have mv: "\<forall>i<length moves.
               load_param_to_move (opcode (insns callee1 ! i)) = Inr (opcode (moves ! i))
               \<and> srcs (moves ! i) = [?args ! i]
               \<and> dest (moves ! i) = map_option (\<lambda>r. r + ?c) (dest (insns callee1 ! i))"
    using each' lm by (auto simp: param_nth)
  note ops = body_operands [OF body returns_have_src_drop [OF rets]]
  have uses: "\<forall>y\<in>set body. \<exists>x\<in>set ?rest.
               length (srcs y) \<le> length (srcs x)
               \<and> (\<forall>k<length (srcs y). \<forall>i<length moves.
                     (dest (moves ! i) = Some (srcs y ! k))
                     = (dest (insns callee1 ! i) = Some (srcs x ! k)))"
  proof
    fix y assume "y \<in> set body"
    with ops(2) consider
        (a) x where "x \<in> set ?rest" "y = remap_insn ?c x"
      | (b) x where "x \<in> set ?rest" "srcs x \<noteq> []" "srcs y = [hd (srcs x) + ?c]"
      by blast
    then show "\<exists>x\<in>set ?rest.
               length (srcs y) \<le> length (srcs x)
               \<and> (\<forall>k<length (srcs y). \<forall>i<length moves.
                     (dest (moves ! i) = Some (srcs y ! k))
                     = (dest (insns callee1 ! i) = Some (srcs x ! k)))"
    proof cases
      case a
      have "\<forall>k<length (srcs y). \<forall>i<length moves.
                     (dest (moves ! i) = Some (srcs y ! k))
                     = (dest (insns callee1 ! i) = Some (srcs x ! k))"
        using mv a(2) by (auto simp: remap_insn_def)
      with a show ?thesis by (auto simp: remap_insn_def)
    next
      case b
      then have h: "srcs y ! 0 = srcs x ! 0 + ?c" "length (srcs y) = 1"
        by (simp_all add: hd_conv_nth)
      have "\<forall>k<length (srcs y). \<forall>i<length moves.
                     (dest (moves ! i) = Some (srcs y ! k))
                     = (dest (insns callee1 ! i) = Some (srcs x ! k))"
        using mv h by auto
      moreover have "length (srcs y) \<le> length (srcs x)"
        using b(2) h(2) by (cases "srcs x") auto
      ultimately show ?thesis using b(1) by blast
    qed
  qed
  have vals: "args_in_caller ?ps ?args ?c \<and> params_in_callee ?ps (registers_size callee1)
                \<and> params_distinct ?ps \<and> unat ?c + unat (registers_size callee1) < 2 ^ 32
              \<longrightarrow>
                (\<forall>regs :: reg_t \<Rightarrow> 'v. \<forall>i<length moves. \<forall>d. dest (moves ! i) = Some d \<longrightarrow>
                   exec_moves moves regs d = regs (?args ! i)
                   \<and> (is_wide (opcode (moves ! i)) \<longrightarrow>
                        exec_moves moves regs (d + 1) = regs (?args ! i + 1)))"
  proof (intro impI allI)
    fix regs :: "reg_t \<Rightarrow> 'v" and i d
    assume h: "args_in_caller ?ps ?args ?c \<and> params_in_callee ?ps (registers_size callee1)
                \<and> params_distinct ?ps \<and> unat ?c + unat (registers_size callee1) < 2 ^ 32"
      and i: "i < length moves" and d: "dest (moves ! i) = Some d"
    from h have h1: "args_in_caller ?ps ?args ?c"
      and h2: "params_in_callee ?ps (registers_size callee1)"
      and h3: "params_distinct ?ps"
      and h4: "unat ?c + unat (registers_size callee1) < 2 ^ 32"
      by simp_all
    from threaded_values [OF lm each' dests h1 h2 h3 h4 i d, of regs]
    show "exec_moves moves regs d = regs (?args ! i)
          \<and> (is_wide (opcode (moves ! i)) \<longrightarrow> exec_moves moves regs (d + 1) = regs (?args ! i + 1))" .
  qed
  from res fin lm mv ops(1) uses vals
  show "\<exists>moves body.
              register_passes plugin caller1 callee1 =
                Inr (remove_move_result plugin caller1, callee1\<lparr>insns := moves @ body\<rparr>)
            \<and> inline_cfg plugin recompute caller callee_orig =
                merge_and_finish plugin recompute (caller_registers_size caller1)
                  (registers_size callee1)
                  (update_after_reg_remap plugin
                     (remove_move_result plugin caller1, callee1\<lparr>insns := moves @ body\<rparr>))
            \<and> length moves = length (get_param_instructions (insns callee1))
            \<and> (\<forall>i<length moves.
                  load_param_to_move (opcode (insns callee1 ! i)) = Inr (opcode (moves ! i))
                  \<and> srcs (moves ! i) = [inline_args plugin caller1 ! i]
                  \<and> dest (moves ! i) =
                      map_option (\<lambda>r. r + caller_registers_size caller1) (dest (insns callee1 ! i)))
            \<and> (\<forall>x\<in>set (drop (length moves) (insns callee1)).
                  \<not> is_return (opcode x) \<longrightarrow>
                  remap_insn (caller_registers_size caller1) x \<in> set body)
            \<and> (\<forall>y\<in>set body. \<exists>x\<in>set (drop (length moves) (insns callee1)).
                  length (srcs y) \<le> length (srcs x)
                  \<and> (\<forall>k<length (srcs y). \<forall>i<length moves.
                        (dest (moves ! i) = Some (srcs y ! k))
                        = (dest (insns callee1 ! i) = Some (srcs x ! k))))
            \<and> (args_in_caller (get_param_instructions (insns callee1))
                  (inline_args plugin caller1) (caller_registers_size caller1)
                \<and> params_in_callee (get_param_instructions (insns callee1)) (registers_size callee1)
                \<and> params_distinct (get_param_instructions (insns callee1))
                \<and> unat (caller_registers_size caller1) + unat (registers_size callee1) < 2 ^ 32
                \<longrightarrow>
                (\<forall>regs :: reg_t \<Rightarrow> 'v. \<forall>i<length moves. \<forall>d. dest (moves ! i) = Some d \<longrightarrow>
                   exec_moves moves regs d = regs (inline_args plugin caller1 ! i)
                   \<and> (is_wide (opcode (moves ! i)) \<longrightarrow>
                        exec_moves moves regs (d + 1) = regs (inline_args plugin caller1 ! i + 1))))"
    by (intro exI [of _ moves] exI [of _ body] conjI) (simp_all only: lm)
qed


theorem inline_cfg_threads_arguments_witness:
  "(\<exists>moves body.
      inline_cfg base_plugin (\<lambda>merged. 0)
        \<lparr>caller_others = [\<lparr>opcode = OPCODE_OTHER 1, srcs = [], dest = Some 0\<rparr>],
         site_insn = \<lparr>opcode = OPCODE_OTHER 0, srcs = [0, 2], dest = None\<rparr>,
         site_cfg_is_caller = True, caller_editable = True,
         site_first_of_block = False, site_last_of_block = False, site_block_goes_to = False,
         site_has_move_result_any = True,
         site_move_result = Some \<lparr>opcode = OPCODE_OTHER 2, srcs = [], dest = Some 2\<rparr>,
         caller_has_blocks = True, caller_registers_size = 3\<rparr>
        \<lparr>insns =
           [\<lparr>opcode = IOPCODE_LOAD_PARAM_WIDE, srcs = [], dest = Some 0\<rparr>,
            \<lparr>opcode = IOPCODE_LOAD_PARAM_OBJECT, srcs = [], dest = Some 2\<rparr>,
            \<lparr>opcode = OPCODE_OTHER 3, srcs = [0, 2], dest = Some 3\<rparr>,
            \<lparr>opcode = OPCODE_RETURN, srcs = [3], dest = None\<rparr>],
         registers_size = 4\<rparr>
      = Inr \<lparr>insns = [\<lparr>opcode = OPCODE_OTHER 1, srcs = [], dest = Some 0\<rparr>] @ moves @ body,
             registers_size = 7\<rparr>
    \<and> moves = [\<lparr>opcode = OPCODE_MOVE_WIDE, srcs = [0], dest = Some 3\<rparr>,
               \<lparr>opcode = OPCODE_MOVE_OBJECT, srcs = [2], dest = Some 5\<rparr>]
    \<and> \<lparr>opcode = OPCODE_OTHER 3, srcs = [3, 5], dest = Some 6\<rparr> \<in> set body
    \<and> exec_moves moves (\<lambda>r. unat r + 10) 3 = 10
    \<and> exec_moves moves (\<lambda>r. unat r + 10) 4 = 11
    \<and> exec_moves moves (\<lambda>r. unat r + 10) 5 = 12)
   \<and> inline_cfg base_plugin (\<lambda>merged. 0)
        \<lparr>caller_others = [],
         site_insn = \<lparr>opcode = OPCODE_OTHER 0, srcs = [0], dest = None\<rparr>,
         site_cfg_is_caller = True, caller_editable = True,
         site_first_of_block = True, site_last_of_block = True, site_block_goes_to = True,
         site_has_move_result_any = False, site_move_result = None,
         caller_has_blocks = True, caller_registers_size = 1\<rparr>
        \<lparr>insns =
           [\<lparr>opcode = IOPCODE_LOAD_PARAM, srcs = [], dest = Some 0\<rparr>,
            \<lparr>opcode = IOPCODE_LOAD_PARAM, srcs = [], dest = Some 1\<rparr>,
            \<lparr>opcode = IOPCODE_LOAD_PARAM, srcs = [], dest = Some 2\<rparr>,
            \<lparr>opcode = OPCODE_RETURN_VOID, srcs = [], dest = None\<rparr>],
         registers_size = 3\<rparr>
      = Inl OutOfRange"
proof -
  let ?callee = "\<lparr>insns =
           [\<lparr>opcode = IOPCODE_LOAD_PARAM_WIDE, srcs = [], dest = Some 0\<rparr>,
            \<lparr>opcode = IOPCODE_LOAD_PARAM_OBJECT, srcs = [], dest = Some 2\<rparr>,
            \<lparr>opcode = OPCODE_OTHER 3, srcs = [0, 2], dest = Some 3\<rparr>,
            \<lparr>opcode = OPCODE_RETURN, srcs = [3], dest = None\<rparr>],
         registers_size = (4::reg_t)\<rparr>"
  let ?caller = "\<lparr>caller_others = [\<lparr>opcode = OPCODE_OTHER 1, srcs = [], dest = Some 0\<rparr>],
         site_insn = \<lparr>opcode = OPCODE_OTHER 0, srcs = [0, 2], dest = None\<rparr>,
         site_cfg_is_caller = True, caller_editable = True,
         site_first_of_block = False, site_last_of_block = False, site_block_goes_to = False,
         site_has_move_result_any = True,
         site_move_result = Some \<lparr>opcode = OPCODE_OTHER 2, srcs = [], dest = Some 2\<rparr>,
         caller_has_blocks = True, caller_registers_size = (3::reg_t)\<rparr>"
  let ?caller1 = "?caller\<lparr>site_last_of_block := True, site_block_goes_to := True\<rparr>"
  let ?ps = "[\<lparr>opcode = IOPCODE_LOAD_PARAM_WIDE, srcs = [], dest = Some (0::reg_t)\<rparr>,
              \<lparr>opcode = IOPCODE_LOAD_PARAM_OBJECT, srcs = [], dest = Some 2\<rparr>]"
  have sp: "split_site base_plugin ?caller = ?caller1"
    by (simp add: split_site_def maybe_split_def maybe_split_block_def split_block_def
          base_plugin_def)
  have before: "update_before_reg_remap base_plugin (split_site base_plugin ?caller, ?callee) =
                  (?caller1, ?callee)"
    unfolding sp by (simp add: base_plugin_def)
  have ps: "get_param_instructions (insns ?callee) = ?ps"
    by (simp add: get_param_instructions_def)
  have dests: "\<forall>p\<in>set (get_param_instructions (insns ?callee)). dest p \<noteq> None"
    unfolding ps by simp
  have args: "inline_args base_plugin ?caller1 = [0, 2]"
    by (simp add: inline_args_def base_plugin_def)
  have h: "length (get_param_instructions (insns ?callee)) \<le> length (inline_args base_plugin ?caller1)
           \<and> returns_have_src (insns ?callee) \<and> move_result_has_dest ?caller1"
    unfolding ps args by (simp add: returns_have_src_def move_result_has_dest_def)
  have v: "args_in_caller (get_param_instructions (insns ?callee))
             (inline_args base_plugin ?caller1) (caller_registers_size ?caller1)
           \<and> params_in_callee (get_param_instructions (insns ?callee)) (registers_size ?callee)
           \<and> params_distinct (get_param_instructions (insns ?callee))
           \<and> unat (caller_registers_size ?caller1) + unat (registers_size ?callee) < 2 ^ 32"
    unfolding ps args
    by (simp add: args_in_caller_def params_in_callee_def params_distinct_def param_regs_def
          reg_span_def is_wide_def less_Suc_eq all_conj_distrib)
  have s1: "site_cfg_is_caller ?caller" and s2: "caller_editable ?caller"
    and s3: "inline_after base_plugin \<and> site_last_of_block ?caller \<longrightarrow> site_block_goes_to ?caller"
    by simp_all
  note inst = inline_cfg_threads_arguments
                [where recompute = "\<lambda>merged. 0", OF s1 s2 s3 before dests,
                 THEN conjunct2, rule_format, OF h]
  have "\<exists>moves body.
         register_passes base_plugin ?caller1 ?callee =
           Inr (remove_move_result base_plugin ?caller1, ?callee\<lparr>insns := moves @ body\<rparr>)
       \<and> inline_cfg base_plugin (\<lambda>merged. 0) ?caller ?callee =
           merge_and_finish base_plugin (\<lambda>merged. 0) (caller_registers_size ?caller1)
             (registers_size ?callee)
             (update_after_reg_remap base_plugin
                (remove_move_result base_plugin ?caller1, ?callee\<lparr>insns := moves @ body\<rparr>))
       \<and> length moves = length (get_param_instructions (insns ?callee))
       \<and> (\<forall>i<length moves.
             load_param_to_move (opcode (insns ?callee ! i)) = Inr (opcode (moves ! i))
             \<and> srcs (moves ! i) = [inline_args base_plugin ?caller1 ! i]
             \<and> dest (moves ! i) =
                 map_option (\<lambda>r. r + caller_registers_size ?caller1) (dest (insns ?callee ! i)))
       \<and> (\<forall>x\<in>set (drop (length moves) (insns ?callee)).
             \<not> is_return (opcode x) \<longrightarrow>
             remap_insn (caller_registers_size ?caller1) x \<in> set body)
       \<and> (\<forall>regs :: reg_t \<Rightarrow> nat. \<forall>i<length moves. \<forall>d. dest (moves ! i) = Some d \<longrightarrow>
             exec_moves moves regs d = regs (inline_args base_plugin ?caller1 ! i)
             \<and> (is_wide (opcode (moves ! i)) \<longrightarrow>
                  exec_moves moves regs (d + 1) = regs (inline_args base_plugin ?caller1 ! i + 1)))"
    using inst v by simp blast
  then obtain moves body where
    fin: "inline_cfg base_plugin (\<lambda>merged. 0) ?caller ?callee =
           merge_and_finish base_plugin (\<lambda>merged. 0) (caller_registers_size ?caller1)
             (registers_size ?callee)
             (update_after_reg_remap base_plugin
                (remove_move_result base_plugin ?caller1, ?callee\<lparr>insns := moves @ body\<rparr>))"
    and l: "length moves = length (get_param_instructions (insns ?callee))"
    and m: "\<forall>i<length moves.
             load_param_to_move (opcode (insns ?callee ! i)) = Inr (opcode (moves ! i))
             \<and> srcs (moves ! i) = [inline_args base_plugin ?caller1 ! i]
             \<and> dest (moves ! i) =
                 map_option (\<lambda>r. r + caller_registers_size ?caller1) (dest (insns ?callee ! i))"
    and u: "\<forall>x\<in>set (drop (length moves) (insns ?callee)).
             \<not> is_return (opcode x) \<longrightarrow>
             remap_insn (caller_registers_size ?caller1) x \<in> set body"
    and e: "\<forall>regs :: reg_t \<Rightarrow> nat. \<forall>i<length moves. \<forall>d. dest (moves ! i) = Some d \<longrightarrow>
             exec_moves moves regs d = regs (inline_args base_plugin ?caller1 ! i)
             \<and> (is_wide (opcode (moves ! i)) \<longrightarrow>
                  exec_moves moves regs (d + 1) = regs (inline_args base_plugin ?caller1 ! i + 1))"
    by blast
  have l2: "length moves = 2" using l unfolding ps by simp
  from m [rule_format, of 0] l2
  have "opcode (moves ! 0) = OPCODE_MOVE_WIDE \<and> srcs (moves ! 0) = [0] \<and> dest (moves ! 0) = Some 3"
    unfolding args by auto
  then have m0: "moves ! 0 = \<lparr>opcode = OPCODE_MOVE_WIDE, srcs = [0], dest = Some 3\<rparr>"
    by (cases "moves ! 0") simp
  from m [rule_format, of 1] l2
  have "opcode (moves ! 1) = OPCODE_MOVE_OBJECT \<and> srcs (moves ! 1) = [2] \<and> dest (moves ! 1) = Some 5"
    unfolding args by auto
  then have m1: "moves ! 1 = \<lparr>opcode = OPCODE_MOVE_OBJECT, srcs = [2], dest = Some 5\<rparr>"
    by (cases "moves ! 1") simp
  from l2 obtain a b where "moves = [a, b]"
    by (auto simp: length_Suc_conv numeral_2_eq_2)
  with m0 m1 have mv: "moves = [\<lparr>opcode = OPCODE_MOVE_WIDE, srcs = [0], dest = Some 3\<rparr>,
               \<lparr>opcode = OPCODE_MOVE_OBJECT, srcs = [2], dest = Some 5\<rparr>]"
    by simp
  from u l2 have b: "\<lparr>opcode = OPCODE_OTHER 3, srcs = [3, 5], dest = Some 6\<rparr> \<in> set body"
    by (simp add: remap_insn_def)
  from e [rule_format, of 0 3 "\<lambda>r. unat r + 10"] l2 m0
  have e0: "exec_moves moves (\<lambda>r. unat r + 10) 3 = 10" "exec_moves moves (\<lambda>r. unat r + 10) 4 = 11"
    unfolding args by (simp_all add: is_wide_def)
  from e [rule_format, of 1 5 "\<lambda>r. unat r + 10"] l2 m1
  have e1: "exec_moves moves (\<lambda>r. unat r + 10) 5 = 12"
    unfolding args by simp
  have r: "inline_cfg base_plugin (\<lambda>merged. 0) ?caller ?callee =
             Inr \<lparr>insns = [\<lparr>opcode = OPCODE_OTHER 1, srcs = [], dest = Some 0\<rparr>] @ moves @ body,
                  registers_size = 7\<rparr>"
    unfolding fin
    by (simp add: merge_and_finish_def base_plugin_def remove_move_result_def)
  let ?caller' = "\<lparr>caller_others = [],
         site_insn = \<lparr>opcode = OPCODE_OTHER 0, srcs = [0], dest = None\<rparr>,
         site_cfg_is_caller = True, caller_editable = True,
         site_first_of_block = True, site_last_of_block = True, site_block_goes_to = True,
         site_has_move_result_any = False, site_move_result = None,
         caller_has_blocks = True, caller_registers_size = (1::reg_t)\<rparr>"
  let ?callee' = "\<lparr>insns =
           [\<lparr>opcode = IOPCODE_LOAD_PARAM, srcs = [], dest = Some 0\<rparr>,
            \<lparr>opcode = IOPCODE_LOAD_PARAM, srcs = [], dest = Some 1\<rparr>,
            \<lparr>opcode = IOPCODE_LOAD_PARAM, srcs = [], dest = Some 2\<rparr>,
            \<lparr>opcode = OPCODE_RETURN_VOID, srcs = [], dest = None\<rparr>],
         registers_size = (3::reg_t)\<rparr>"
  have sp': "split_site base_plugin ?caller' = ?caller'"
    by (simp add: split_site_def maybe_split_def maybe_split_block_def split_block_def
          base_plugin_def)
  have before': "update_before_reg_remap base_plugin (split_site base_plugin ?caller', ?callee') =
                  (?caller', ?callee')"
    unfolding sp' by (simp add: base_plugin_def)
  have ps': "get_param_instructions (insns ?callee') =
               [\<lparr>opcode = IOPCODE_LOAD_PARAM, srcs = [], dest = Some 0\<rparr>,
                \<lparr>opcode = IOPCODE_LOAD_PARAM, srcs = [], dest = Some 1\<rparr>,
                \<lparr>opcode = IOPCODE_LOAD_PARAM, srcs = [], dest = Some 2\<rparr>]"
    by (simp add: get_param_instructions_def)
  have dests': "\<forall>p\<in>set (get_param_instructions (insns ?callee')). dest p \<noteq> None"
    unfolding ps' by simp
  have more: "length (inline_args base_plugin ?caller') < length (get_param_instructions (insns ?callee'))"
    unfolding ps' by (simp add: inline_args_def base_plugin_def)
  have s1': "site_cfg_is_caller ?caller'" and s2': "caller_editable ?caller'"
    and s3': "inline_after base_plugin \<and> site_last_of_block ?caller' \<longrightarrow> site_block_goes_to ?caller'"
    by simp_all
  from inline_cfg_threads_arguments
         [where recompute = "\<lambda>merged. 0", OF s1' s2' s3' before' dests',
          THEN conjunct1, rule_format, OF more]
  have r': "inline_cfg base_plugin (\<lambda>merged. 0) ?caller' ?callee' = Inl OutOfRange"
    by simp
  from r mv b e0 e1 r' show ?thesis
    by (intro conjI exI [of _ moves] exI [of _ body])
qed

text \<open>
  C3 as stated fails in two ways.  When the callee has more load-params than the call has
  arguments (two load-params, one argument register), \<open>srcs.at(1)\<close> throws and nothing is
  inlined, so no move is produced for \<open>i = 0\<close> either.  When the plugin's alternate sources
  are not registers of the caller (\<open>v5\<close> and \<open>v3\<close> for a caller with three registers), the
  first move writes \<open>v3\<close> before the second move reads it: on the register file in which
  every register holds its own number, the register of parameter 1, which the callee's
  instruction reads, receives 5, the value of \<open>v5\<close>, and not the value that the argument
  register \<open>v3\<close> held.
\<close>

theorem inline_cfg_more_params_than_args:
  "inline_cfg base_plugin (\<lambda>merged. 0)
     \<lparr>caller_others = [],
      site_insn = \<lparr>opcode = OPCODE_OTHER 0, srcs = [0], dest = None\<rparr>,
      site_cfg_is_caller = True, caller_editable = True,
      site_first_of_block = True, site_last_of_block = True, site_block_goes_to = True,
      site_has_move_result_any = False, site_move_result = None,
      caller_has_blocks = True, caller_registers_size = 1\<rparr>
     \<lparr>insns =
        [\<lparr>opcode = IOPCODE_LOAD_PARAM, srcs = [], dest = Some 0\<rparr>,
         \<lparr>opcode = IOPCODE_LOAD_PARAM, srcs = [], dest = Some 1\<rparr>,
         \<lparr>opcode = OPCODE_RETURN_VOID, srcs = [], dest = None\<rparr>],
      registers_size = 2\<rparr>
   = Inl OutOfRange
   \<and> inline_cfg (base_plugin\<lparr>inline_srcs := Some [5, 3]\<rparr>) (\<lambda>merged. 0)
       \<lparr>caller_others = [],
        site_insn = \<lparr>opcode = OPCODE_OTHER 0, srcs = [0, 1], dest = None\<rparr>,
        site_cfg_is_caller = True, caller_editable = True,
        site_first_of_block = True, site_last_of_block = True, site_block_goes_to = True,
        site_has_move_result_any = False, site_move_result = None,
        caller_has_blocks = True, caller_registers_size = 3\<rparr>
       \<lparr>insns =
          [\<lparr>opcode = IOPCODE_LOAD_PARAM, srcs = [], dest = Some 0\<rparr>,
           \<lparr>opcode = IOPCODE_LOAD_PARAM, srcs = [], dest = Some 1\<rparr>,
           \<lparr>opcode = OPCODE_OTHER 3, srcs = [1], dest = None\<rparr>,
           \<lparr>opcode = OPCODE_RETURN_VOID, srcs = [], dest = None\<rparr>],
        registers_size = 2\<rparr>
     = Inr \<lparr>insns =
              [\<lparr>opcode = OPCODE_MOVE, srcs = [5], dest = Some 3\<rparr>,
               \<lparr>opcode = OPCODE_MOVE, srcs = [3], dest = Some 4\<rparr>,
               \<lparr>opcode = OPCODE_OTHER 3, srcs = [4], dest = None\<rparr>],
            registers_size = 5\<rparr>
   \<and> exec_moves
        [\<lparr>opcode = OPCODE_MOVE, srcs = [5], dest = Some 3\<rparr>,
         \<lparr>opcode = OPCODE_MOVE, srcs = [3], dest = Some 4\<rparr>] unat 4 = 5"
  by (simp add: inline_cfg_def base_plugin_def maybe_split_def maybe_split_block_def
        register_passes_def inline_args_def return_register_def remove_move_result_def
        merge_and_finish_def caller_insns_def
        move_arg_regs_def get_param_instructions_def remap_registers_def remap_insn_def
        exec_moves_def exec_move_def is_wide_def)

lemma registers_in_mono: "set xs \<subseteq> set ys \<Longrightarrow> registers_in xs \<subseteq> registers_in ys"
  by (auto simp: registers_in_def)

lemma registers_in_bound:
  "(\<forall>r\<in>registers_in xs. r < n) \<longleftrightarrow> (\<forall>x\<in>set xs. \<forall>r\<in>registers_of x. r < n)"
  by (auto simp: registers_in_def)

lemma merge_and_finish_insns:
  assumes "merge_and_finish plugin recompute c n ((caller, callee), need) = Inr merged"
  shows "set (insns merged) \<subseteq> set (caller_insns caller @ insns callee)"
    and "registers_size merged = (if need then recompute (caller_insns caller @ insns callee) else c + n)"
  using assms
  by (auto simp: merge_and_finish_def caller_insns_def split: if_splits option.splits)

lemma merge_and_finish_ok:
  "caller_has_blocks caller \<Longrightarrow>
   \<exists>merged. merge_and_finish plugin recompute c n ((caller, callee), need) = Inr merged"
  by (simp add: merge_and_finish_def)

lemma remove_move_result_insns:
  "set (caller_insns (remove_move_result plugin caller)) \<subseteq> set (caller_insns caller)"
  by (auto simp: remove_move_result_def caller_insns_def split: option.splits)

text \<open>
  C4 (amended).  Let \<open>caller1\<close> and \<open>callee1\<close> be the caller and the callee copy as the
  plugin's \<open>update_before_reg_remap\<close> hook leaves them (the split before it leaves the
  caller's \<open>registers_size\<close> alone), with enough argument registers for the load-params,
  the callee's registers below its \<open>registers_size\<close> and the sum of the two sizes not
  wrapping around in \<open>uint32_t\<close>.  Then the register passes succeed; every source and
  destination register of every callee instruction is incremented by the
  \<open>registers_size\<close> of \<open>caller1\<close> and is at least that size; in the callee that
  \<open>update_after_reg_remap\<close> receives, the callee's instructions other than load-params and
  returns stand in that remapped form, and the moves created in place of load-params and
  returns keep the callee's side in the remapped range (the destination of a parameter move,
  the source of a return move).  Whatever that hook returns, with a caller that still has a
  block, \<open>inline_cfg\<close> returns; the final \<open>registers_size\<close> is the sum of the two sizes, or
  what \<open>recompute_registers_size\<close> computes when the hook asks for it; and it is above every
  register referenced in the merged CFG when, in the first case, the caller's registers were
  below its \<open>registers_size\<close>, the plugin's registers below the sum and the hook added no
  register, and, in the second case, the recomputed size is above the registers it scanned.
\<close>

theorem inline_cfg_register_disjointness:
  assumes site: "site_cfg_is_caller caller" "caller_editable caller"
      "inline_after plugin \<and> site_last_of_block caller \<longrightarrow> site_block_goes_to caller"
    and before:
      "update_before_reg_remap plugin (split_site plugin caller, callee_orig) = (caller1, callee1)"
    and dests: "\<forall>p\<in>set (get_param_instructions (insns callee1)). dest p \<noteq> None"
    and enough: "length (get_param_instructions (insns callee1)) \<le> length (inline_args plugin caller1)"
    and rets: "returns_have_src (insns callee1)"
    and mres: "move_result_has_dest caller1"
    and callee_regs: "\<forall>x\<in>set (insns callee1). \<forall>r\<in>registers_of x. r < registers_size callee1"
    and no_wrap: "unat (caller_registers_size caller1) + unat (registers_size callee1) < 2 ^ 32"
  shows "caller_registers_size (split_site plugin caller) = caller_registers_size caller
       \<and> (\<exists>moves body.
             register_passes plugin caller1 callee1 =
               Inr (remove_move_result plugin caller1, callee1\<lparr>insns := moves @ body\<rparr>)
           \<and> length moves = length (get_param_instructions (insns callee1))
           \<and> (\<forall>x\<in>set (insns callee1).
                 \<forall>r\<in>registers_of (remap_insn (caller_registers_size caller1) x).
                   caller_registers_size caller1 \<le> r)
           \<and> (\<forall>x\<in>set (drop (length moves) (insns callee1)).
                 \<not> is_return (opcode x) \<longrightarrow>
                 remap_insn (caller_registers_size caller1) x \<in> set body)
           \<and> (\<forall>y\<in>set moves. \<forall>d. dest y = Some d \<longrightarrow> caller_registers_size caller1 \<le> d)
           \<and> (\<forall>y\<in>set body.
                 (\<exists>x\<in>set (insns callee1). y = remap_insn (caller_registers_size caller1) x)
                 \<or> (dest y = inline_return_reg plugin caller1
                     \<and> (\<forall>r\<in>set (srcs y). caller_registers_size caller1 \<le> r)))
           \<and> (\<forall>caller3 callee3 need.
                 update_after_reg_remap plugin
                   (remove_move_result plugin caller1, callee1\<lparr>insns := moves @ body\<rparr>)
                   = ((caller3, callee3), need)
                 \<and> caller_has_blocks caller3 \<longrightarrow>
                 (\<exists>merged.
                     inline_cfg plugin recompute caller callee_orig = Inr merged
                   \<and> registers_size merged =
                       (if need then recompute (caller_insns caller3 @ insns callee3)
                        else caller_registers_size caller1 + registers_size callee1)
                   \<and> set (insns merged) \<subseteq> set (caller_insns caller3 @ insns callee3)
                   \<and> ((if need
                        then \<forall>r\<in>registers_in (caller_insns caller3 @ insns callee3).
                               r < recompute (caller_insns caller3 @ insns callee3)
                        else (\<forall>x\<in>set (caller_insns caller1).
                                \<forall>r\<in>registers_of x. r < caller_registers_size caller1)
                             \<and> (\<forall>r\<in>(case inline_srcs plugin of None \<Rightarrow> {}
                                       | Some alt_srcs \<Rightarrow> set alt_srcs)
                                      \<union> set_option (reg_for_return plugin).
                                   r < caller_registers_size caller1 + registers_size callee1)
                             \<and> adds_no_register
                                 (remove_move_result plugin caller1,
                                  callee1\<lparr>insns := moves @ body\<rparr>)
                                 (caller3, callee3))
                       \<longrightarrow> (\<forall>y\<in>set (insns merged).
                              \<forall>r\<in>registers_of y. r < registers_size merged)))))"
proof (intro conjI)
  show "caller_registers_size (split_site plugin caller) = caller_registers_size caller"
    by (rule split_site_registers_size)
next
  note steps = inline_cfg_steps [OF site before, of recompute]
  let ?c = "caller_registers_size caller1"
  let ?n = "registers_size callee1"
  let ?ps = "get_param_instructions (insns callee1)"
  let ?N = "length ?ps"
  let ?rest = "drop ?N (insns callee1)"
  let ?args = "inline_args plugin caller1"
  let ?ret = "inline_return_reg plugin caller1"
  from register_passes_ok [OF enough dests rets mres]
  obtain moves body where
    moves: "move_params (remap_registers ?ps ?c) ?args 0 = Inr moves"
    and body: "move_return_reg (remap_registers ?rest ?c) ?ret = Inr body"
    and res: "register_passes plugin caller1 callee1 =
                Inr (remove_move_result plugin caller1, callee1\<lparr>insns := moves @ body\<rparr>)"
    by blast
  let ?staged = "(remove_move_result plugin caller1, callee1\<lparr>insns := moves @ body\<rparr>)"
  from steps res have fin: "inline_cfg plugin recompute caller callee_orig =
                merge_and_finish plugin recompute ?c ?n (update_after_reg_remap plugin ?staged)"
    by simp
  have lp: "\<forall>p\<in>set (remap_registers ?ps ?c). is_load_param (opcode p)"
    using params_are_load_params [of "insns callee1"]
    by (auto simp: remap_registers_def remap_insn_def)
  have ds: "\<forall>p\<in>set (remap_registers ?ps ?c). dest p \<noteq> None"
    using dests by (auto simp: remap_registers_def remap_insn_def)
  have len: "length (remap_registers ?ps ?c) = ?N"
    by (simp add: remap_registers_def)
  from move_params_ok [OF lp ds, of 0 ?args] enough len moves
  have lm: "length moves = ?N"
    and each: "\<forall>k<?N.
              srcs (moves ! k) = [?args ! k] \<and>
              dest (moves ! k) = dest (remap_registers ?ps ?c ! k)"
    by auto
  note ops = body_operands [OF body returns_have_src_drop [OF rets]]
  have shifted: "\<forall>x\<in>set (insns callee1). \<forall>r\<in>registers_of (remap_insn ?c x). ?c \<le> r \<and> r < ?c + ?n"
    using callee_regs no_wrap by (auto dest!: remap_insn_bounds [where c = ?c and n = ?n])
  have in_callee: "?ps ! k \<in> set (insns callee1)" if "k < ?N" for k
  proof -
    from that have "?ps ! k \<in> set ?ps" by simp
    then show ?thesis by (auto simp: get_param_instructions_def dest: set_takeWhileD)
  qed
  have move_dest: "\<forall>r\<in>set_option (dest y). ?c \<le> r \<and> r < ?c + ?n"
    and move_src: "\<exists>k<?N. srcs y = [?args ! k]"
    if "y \<in> set moves" for y
  proof -
    from that lm obtain k where k: "k < ?N" "y = moves ! k"
      by (auto simp: in_set_conv_nth)
    with each have s: "srcs y = [?args ! k]"
      and d: "dest y = dest (remap_insn ?c (?ps ! k))"
      by (simp_all add: remap_registers_def)
    from shifted in_callee [OF k(1)]
    have "\<forall>r\<in>registers_of (remap_insn ?c (?ps ! k)). ?c \<le> r \<and> r < ?c + ?n" by blast
    then show "\<forall>r\<in>set_option (dest y). ?c \<le> r \<and> r < ?c + ?n"
      by (simp add: d registers_of_def)
    from k(1) s show "\<exists>k<?N. srcs y = [?args ! k]" by blast
  qed
  have body_cases:
    "(\<exists>x\<in>set (insns callee1). y = remap_insn ?c x)
       \<or> (dest y = ?ret \<and> (\<forall>r\<in>set (srcs y). ?c \<le> r \<and> r < ?c + ?n))"
    if "y \<in> set body" for y
  proof -
    from that ops(2) consider
        (a) x where "x \<in> set ?rest" "y = remap_insn ?c x"
      | (b) x where "x \<in> set ?rest" "srcs x \<noteq> []" "dest y = ?ret" "srcs y = [hd (srcs x) + ?c]"
      by blast
    then show ?thesis
    proof cases
      case a
      then have "x \<in> set (insns callee1)" by (auto dest: in_set_dropD)
      with a(2) show ?thesis by blast
    next
      case b
      then have x: "x \<in> set (insns callee1)" by (auto dest: in_set_dropD)
      from b(2) have "hd (srcs x) \<in> registers_of x"
        by (simp add: registers_of_def)
      then have "hd (srcs x) + ?c \<in> registers_of (remap_insn ?c x)"
        by (auto simp: registers_of_def remap_insn_def)
      with shifted x have "?c \<le> hd (srcs x) + ?c \<and> hd (srcs x) + ?c < ?c + ?n" by blast
      with b(3,4) show ?thesis by simp
    qed
  qed
  have final: "\<exists>merged.
                     inline_cfg plugin recompute caller callee_orig = Inr merged
                   \<and> registers_size merged =
                       (if need then recompute (caller_insns caller3 @ insns callee3)
                        else ?c + ?n)
                   \<and> set (insns merged) \<subseteq> set (caller_insns caller3 @ insns callee3)
                   \<and> ((if need
                        then \<forall>r\<in>registers_in (caller_insns caller3 @ insns callee3).
                               r < recompute (caller_insns caller3 @ insns callee3)
                        else (\<forall>x\<in>set (caller_insns caller1). \<forall>r\<in>registers_of x. r < ?c)
                             \<and> (\<forall>r\<in>(case inline_srcs plugin of None \<Rightarrow> {}
                                       | Some alt_srcs \<Rightarrow> set alt_srcs)
                                      \<union> set_option (reg_for_return plugin).
                                   r < ?c + ?n)
                             \<and> adds_no_register ?staged (caller3, callee3))
                       \<longrightarrow> (\<forall>y\<in>set (insns merged).
                              \<forall>r\<in>registers_of y. r < registers_size merged))"
    if hook: "update_after_reg_remap plugin ?staged = ((caller3, callee3), need)"
      and blocks: "caller_has_blocks caller3"
    for caller3 callee3 need
  proof -
    from merge_and_finish_ok [OF blocks, of plugin recompute ?c ?n callee3 need]
    obtain merged where
      mg: "merge_and_finish plugin recompute ?c ?n ((caller3, callee3), need) = Inr merged"
      by blast
    with fin hook have r: "inline_cfg plugin recompute caller callee_orig = Inr merged" by simp
    note mi = merge_and_finish_insns [OF mg]
    have sub: "registers_in (insns merged) \<subseteq> registers_in (caller_insns caller3 @ insns callee3)"
      using mi(1) by (rule registers_in_mono)
    have bound: "\<forall>y\<in>set (insns merged). \<forall>r\<in>registers_of y. r < registers_size merged"
      if h: "if need
             then \<forall>r\<in>registers_in (caller_insns caller3 @ insns callee3).
                    r < recompute (caller_insns caller3 @ insns callee3)
             else (\<forall>x\<in>set (caller_insns caller1). \<forall>r\<in>registers_of x. r < ?c)
                  \<and> (\<forall>r\<in>(case inline_srcs plugin of None \<Rightarrow> {}
                            | Some alt_srcs \<Rightarrow> set alt_srcs)
                           \<union> set_option (reg_for_return plugin).
                        r < ?c + ?n)
                  \<and> adds_no_register ?staged (caller3, callee3)"
    proof (cases need)
      case True
      with h have "\<forall>r\<in>registers_in (caller_insns caller3 @ insns callee3).
                     r < recompute (caller_insns caller3 @ insns callee3)"
        by simp
      with sub mi(2) True have "\<forall>r\<in>registers_in (insns merged). r < registers_size merged"
        by auto
      then show ?thesis by (simp add: registers_in_bound)
    next
      case False
      with h have caller_regs: "\<forall>x\<in>set (caller_insns caller1). \<forall>r\<in>registers_of x. r < ?c"
        and plugin_regs: "\<forall>r\<in>(case inline_srcs plugin of None \<Rightarrow> {}
                            | Some alt_srcs \<Rightarrow> set alt_srcs)
                           \<union> set_option (reg_for_return plugin).
                        r < ?c + ?n"
        and keeps: "adds_no_register ?staged (caller3, callee3)"
        by simp_all
      have small: "r < ?c + ?n" if "r < ?c" for r
        using that no_wrap by (rule no_wrap_le)
      have site_regs: "\<forall>r\<in>registers_of (site_insn caller1). r < ?c"
        using caller_regs by (simp add: caller_insns_def)
      have args_lt: "\<forall>r\<in>set ?args. r < ?c + ?n"
      proof (cases "inline_srcs plugin")
        case None
        with site_regs small show ?thesis
          by (auto simp: inline_args_def registers_of_def)
      next
        case (Some alt)
        with plugin_regs show ?thesis by (auto simp: inline_args_def)
      qed
      have ret_lt: "\<forall>r\<in>set_option ?ret. r < ?c + ?n"
      proof (cases "site_has_move_result_any caller1 \<and> reg_for_return plugin = None")
        case False
        with plugin_regs show ?thesis
          by (auto simp: inline_return_reg_def split: option.splits if_splits)
      next
        case True
        show ?thesis
        proof (cases "site_move_result caller1")
          case None
          with True show ?thesis by (simp add: inline_return_reg_def)
        next
          case (Some mr)
          with caller_regs have "\<forall>r\<in>registers_of mr. r < ?c"
            by (simp add: caller_insns_def)
          with True Some small show ?thesis
            by (auto simp: inline_return_reg_def registers_of_def)
        qed
      qed
      have mv_lt: "\<forall>r\<in>registers_of y. r < ?c + ?n" if "y \<in> set moves" for y
      proof -
        from move_src [OF that] obtain k where k: "k < ?N" "srcs y = [?args ! k]" by blast
        from k(1) enough have "?args ! k \<in> set ?args" by simp
        with args_lt have "?args ! k < ?c + ?n" by blast
        with k(2) move_dest [OF that] show ?thesis by (auto simp: registers_of_def)
      qed
      have body_lt: "\<forall>r\<in>registers_of y. r < ?c + ?n" if "y \<in> set body" for y
        using body_cases [OF that] shifted ret_lt by (auto simp: registers_of_def)
      have caller_lt: "\<forall>r\<in>registers_of y. r < ?c + ?n"
        if "y \<in> set (caller_insns (remove_move_result plugin caller1))" for y
        using that remove_move_result_insns [of plugin caller1] caller_regs small by blast
      have "\<forall>r\<in>registers_in (caller_insns (remove_move_result plugin caller1) @ moves @ body).
              r < ?c + ?n"
        using caller_lt mv_lt body_lt by (auto simp: registers_in_def)
      with keeps have "\<forall>r\<in>registers_in (caller_insns caller3 @ insns callee3). r < ?c + ?n"
        by (auto simp: adds_no_register_def)
      with sub mi(2) False have "\<forall>r\<in>registers_in (insns merged). r < registers_size merged"
        by auto
      then show ?thesis by (simp add: registers_in_bound)
    qed
    from r mi bound show ?thesis by blast
  qed
  have c3: "\<forall>x\<in>set (insns callee1). \<forall>r\<in>registers_of (remap_insn ?c x). ?c \<le> r"
    using shifted by blast
  have c5: "\<forall>y\<in>set moves. \<forall>d. dest y = Some d \<longrightarrow> ?c \<le> d"
    using move_dest by fastforce
  have c6: "\<forall>y\<in>set body.
                 (\<exists>x\<in>set (insns callee1). y = remap_insn ?c x)
                 \<or> (dest y = ?ret \<and> (\<forall>r\<in>set (srcs y). ?c \<le> r))"
    using body_cases by blast
  have c7: "\<forall>caller3 callee3 need.
                 update_after_reg_remap plugin ?staged = ((caller3, callee3), need)
                 \<and> caller_has_blocks caller3 \<longrightarrow>
                 (\<exists>merged.
                     inline_cfg plugin recompute caller callee_orig = Inr merged
                   \<and> registers_size merged =
                       (if need then recompute (caller_insns caller3 @ insns callee3)
                        else ?c + ?n)
                   \<and> set (insns merged) \<subseteq> set (caller_insns caller3 @ insns callee3)
                   \<and> ((if need
                        then \<forall>r\<in>registers_in (caller_insns caller3 @ insns callee3).
                               r < recompute (caller_insns caller3 @ insns callee3)
                        else (\<forall>x\<in>set (caller_insns caller1). \<forall>r\<in>registers_of x. r < ?c)
                             \<and> (\<forall>r\<in>(case inline_srcs plugin of None \<Rightarrow> {}
                                       | Some alt_srcs \<Rightarrow> set alt_srcs)
                                      \<union> set_option (reg_for_return plugin).
                                   r < ?c + ?n)
                             \<and> adds_no_register ?staged (caller3, callee3))
                       \<longrightarrow> (\<forall>y\<in>set (insns merged).
                              \<forall>r\<in>registers_of y. r < registers_size merged)))"
    using final by blast
  from res lm c3 ops(1) c5 c6 c7
  show "\<exists>moves body.
             register_passes plugin caller1 callee1 =
               Inr (remove_move_result plugin caller1, callee1\<lparr>insns := moves @ body\<rparr>)
           \<and> length moves = length (get_param_instructions (insns callee1))
           \<and> (\<forall>x\<in>set (insns callee1).
                 \<forall>r\<in>registers_of (remap_insn (caller_registers_size caller1) x).
                   caller_registers_size caller1 \<le> r)
           \<and> (\<forall>x\<in>set (drop (length moves) (insns callee1)).
                 \<not> is_return (opcode x) \<longrightarrow>
                 remap_insn (caller_registers_size caller1) x \<in> set body)
           \<and> (\<forall>y\<in>set moves. \<forall>d. dest y = Some d \<longrightarrow> caller_registers_size caller1 \<le> d)
           \<and> (\<forall>y\<in>set body.
                 (\<exists>x\<in>set (insns callee1). y = remap_insn (caller_registers_size caller1) x)
                 \<or> (dest y = inline_return_reg plugin caller1
                     \<and> (\<forall>r\<in>set (srcs y). caller_registers_size caller1 \<le> r)))
           \<and> (\<forall>caller3 callee3 need.
                 update_after_reg_remap plugin
                   (remove_move_result plugin caller1, callee1\<lparr>insns := moves @ body\<rparr>)
                   = ((caller3, callee3), need)
                 \<and> caller_has_blocks caller3 \<longrightarrow>
                 (\<exists>merged.
                     inline_cfg plugin recompute caller callee_orig = Inr merged
                   \<and> registers_size merged =
                       (if need then recompute (caller_insns caller3 @ insns callee3)
                        else caller_registers_size caller1 + registers_size callee1)
                   \<and> set (insns merged) \<subseteq> set (caller_insns caller3 @ insns callee3)
                   \<and> ((if need
                        then \<forall>r\<in>registers_in (caller_insns caller3 @ insns callee3).
                               r < recompute (caller_insns caller3 @ insns callee3)
                        else (\<forall>x\<in>set (caller_insns caller1).
                                \<forall>r\<in>registers_of x. r < caller_registers_size caller1)
                             \<and> (\<forall>r\<in>(case inline_srcs plugin of None \<Rightarrow> {}
                                       | Some alt_srcs \<Rightarrow> set alt_srcs)
                                      \<union> set_option (reg_for_return plugin).
                                   r < caller_registers_size caller1 + registers_size callee1)
                             \<and> adds_no_register
                                 (remove_move_result plugin caller1,
                                  callee1\<lparr>insns := moves @ body\<rparr>)
                                 (caller3, callee3))
                       \<longrightarrow> (\<forall>y\<in>set (insns merged).
                              \<forall>r\<in>registers_of y. r < registers_size merged))))"
    by (intro exI [of _ moves] exI [of _ body] conjI) (simp_all only: lm)
qed

lemmas inliner_eval =
  inline_cfg_def maybe_split_def maybe_split_block_def maybe_split_block_before_def
  split_block_def register_passes_def inline_args_def return_register_def
  remove_move_result_def merge_and_finish_def caller_insns_def move_arg_regs_def
  get_param_instructions_def remap_registers_def remap_insn_def

lemmas test_eval =
  test_plugin_def test_caller_def test_callee_def test_expected_def iput_to_move_def
  iget_to_move_def

lemma test_inline_cfg:
  "inline_cfg test_plugin recompute test_caller test_callee = Inr test_expected"
  by (simp add: inliner_eval test_eval)


theorem inline_cfg_register_disjointness_witness:
  "inline_cfg test_plugin (\<lambda>merged. 0) test_caller test_callee = Inr test_expected
   \<and> caller_registers_size test_caller = 4
   \<and> registers_size test_callee = 4
   \<and> registers_size test_expected = 5 + 4
   \<and> registers_in (insns test_expected) \<subseteq> {r. r < registers_size test_expected}
   \<and> (\<exists>merged.
         inline_cfg (base_plugin\<lparr>update_after_reg_remap := (\<lambda>staged. (staged, True))\<rparr>)
           (\<lambda>merged. 7)
           \<lparr>caller_others = [\<lparr>opcode = OPCODE_OTHER 1, srcs = [], dest = Some 0\<rparr>],
            site_insn = \<lparr>opcode = OPCODE_OTHER 0, srcs = [0, 2], dest = None\<rparr>,
            site_cfg_is_caller = True, caller_editable = True,
            site_first_of_block = False, site_last_of_block = False, site_block_goes_to = False,
            site_has_move_result_any = True,
            site_move_result = Some \<lparr>opcode = OPCODE_OTHER 2, srcs = [], dest = Some 2\<rparr>,
            caller_has_blocks = True, caller_registers_size = 3\<rparr>
           \<lparr>insns =
              [\<lparr>opcode = IOPCODE_LOAD_PARAM_WIDE, srcs = [], dest = Some 0\<rparr>,
               \<lparr>opcode = IOPCODE_LOAD_PARAM_OBJECT, srcs = [], dest = Some 2\<rparr>,
               \<lparr>opcode = OPCODE_OTHER 3, srcs = [0, 2], dest = Some 3\<rparr>,
               \<lparr>opcode = OPCODE_RETURN, srcs = [3], dest = None\<rparr>],
            registers_size = 4\<rparr>
         = Inr merged
       \<and> registers_size merged = 7
       \<and> \<lparr>opcode = OPCODE_OTHER 3, srcs = [3, 5], dest = Some 6\<rparr> \<in> set (insns merged)
       \<and> (\<forall>y\<in>set (insns merged). \<forall>r\<in>registers_of y. r < 7))"
proof -
  let ?caller1 = "test_caller
        \<lparr>caller_others :=
           [\<lparr>opcode = IOPCODE_LOAD_PARAM, srcs = [], dest = Some 0\<rparr>,
            \<lparr>opcode = IOPCODE_LOAD_PARAM, srcs = [], dest = Some 1\<rparr>,
            \<lparr>opcode = OPCODE_OTHER 1, srcs = [], dest = None\<rparr>,
            \<lparr>opcode = OPCODE_OTHER 2, srcs = [], dest = Some 2\<rparr>,
            \<lparr>opcode = OPCODE_MOVE, srcs = [1], dest = Some 4\<rparr>,
            \<lparr>opcode = OPCODE_OTHER 4, srcs = [], dest = None\<rparr>,
            \<lparr>opcode = OPCODE_OTHER 2, srcs = [], dest = Some 3\<rparr>,
            \<lparr>opcode = OPCODE_RETURN, srcs = [3], dest = None\<rparr>,
            \<lparr>opcode = OPCODE_NOP, srcs = [], dest = None\<rparr>],
         site_first_of_block := True, caller_registers_size := 5\<rparr>"
  let ?staged = "[\<lparr>opcode = OPCODE_MOVE, srcs = [0], dest = Some (5::reg_t)\<rparr>,
         \<lparr>opcode = OPCODE_OTHER 6, srcs = [5], dest = None\<rparr>,
         \<lparr>opcode = OPCODE_OTHER 7, srcs = [], dest = Some 6\<rparr>,
         \<lparr>opcode = OPCODE_OTHER 8, srcs = [5], dest = None\<rparr>,
         \<lparr>opcode = OPCODE_OTHER 7, srcs = [], dest = Some 8\<rparr>,
         \<lparr>opcode = OPCODE_OTHER 9, srcs = [], dest = None\<rparr>,
         \<lparr>opcode = OPCODE_OTHER 2, srcs = [], dest = Some 7\<rparr>,
         \<lparr>opcode = OPCODE_OTHER 10, srcs = [6, 7], dest = None\<rparr>,
         \<lparr>opcode = OPCODE_OTHER 11, srcs = [6, 8], dest = None\<rparr>,
         \<lparr>opcode = OPCODE_MOVE, srcs = [7], dest = Some 2\<rparr>]"
  let ?hooked = "[\<lparr>opcode = OPCODE_MOVE, srcs = [0], dest = Some (5::reg_t)\<rparr>,
         \<lparr>opcode = OPCODE_MOVE, srcs = [4], dest = Some 6\<rparr>,
         \<lparr>opcode = OPCODE_OTHER 12, srcs = [0], dest = None\<rparr>,
         \<lparr>opcode = OPCODE_OTHER 7, srcs = [], dest = Some 8\<rparr>,
         \<lparr>opcode = OPCODE_OTHER 9, srcs = [], dest = None\<rparr>,
         \<lparr>opcode = OPCODE_OTHER 2, srcs = [], dest = Some 7\<rparr>,
         \<lparr>opcode = OPCODE_OTHER 10, srcs = [6, 7], dest = None\<rparr>,
         \<lparr>opcode = OPCODE_OTHER 11, srcs = [6, 8], dest = None\<rparr>,
         \<lparr>opcode = OPCODE_MOVE, srcs = [7], dest = Some 2\<rparr>]"
  have s1: "site_cfg_is_caller test_caller" and s2: "caller_editable test_caller"
    and s3: "inline_after test_plugin \<and> site_last_of_block test_caller
             \<longrightarrow> site_block_goes_to test_caller"
    by (simp_all add: test_eval)
  have before: "update_before_reg_remap test_plugin (split_site test_plugin test_caller, test_callee)
                  = (?caller1, test_callee)"
    by (simp add: split_site_def maybe_split_def maybe_split_block_before_def test_eval)
  have ps: "get_param_instructions (insns test_callee) =
              [\<lparr>opcode = IOPCODE_LOAD_PARAM, srcs = [], dest = Some 0\<rparr>]"
    by (simp add: get_param_instructions_def test_eval)
  have dests: "\<forall>p\<in>set (get_param_instructions (insns test_callee)). dest p \<noteq> None"
    unfolding ps by simp
  have enough: "length (get_param_instructions (insns test_callee))
                  \<le> length (inline_args test_plugin ?caller1)"
    unfolding ps by (simp add: inline_args_def test_eval)
  have rets: "returns_have_src (insns test_callee)"
    by (simp add: returns_have_src_def test_eval)
  have mres: "move_result_has_dest ?caller1"
    by (simp add: move_result_has_dest_def test_eval)
  have callee_regs: "\<forall>x\<in>set (insns test_callee). \<forall>r\<in>registers_of x. r < registers_size test_callee"
    by (simp add: registers_of_def test_eval)
  have no_wrap: "unat (caller_registers_size ?caller1) + unat (registers_size test_callee) < 2 ^ 32"
    by (simp add: test_eval)
  from inline_cfg_register_disjointness
         [where recompute = "\<lambda>merged. 0",
          OF s1 s2 s3 before dests enough rets mres callee_regs no_wrap, THEN conjunct2]
  obtain moves body where
    res: "register_passes test_plugin ?caller1 test_callee =
            Inr (remove_move_result test_plugin ?caller1, test_callee\<lparr>insns := moves @ body\<rparr>)"
    and fin: "\<forall>caller3 callee3 need.
                 update_after_reg_remap test_plugin
                   (remove_move_result test_plugin ?caller1, test_callee\<lparr>insns := moves @ body\<rparr>)
                   = ((caller3, callee3), need)
                 \<and> caller_has_blocks caller3 \<longrightarrow>
                 (\<exists>merged.
                     inline_cfg test_plugin (\<lambda>merged. 0) test_caller test_callee = Inr merged
                   \<and> registers_size merged =
                       (if need then (\<lambda>merged. 0) (caller_insns caller3 @ insns callee3)
                        else caller_registers_size ?caller1 + registers_size test_callee)
                   \<and> set (insns merged) \<subseteq> set (caller_insns caller3 @ insns callee3)
                   \<and> ((if need
                        then \<forall>r\<in>registers_in (caller_insns caller3 @ insns callee3).
                               r < (\<lambda>merged. 0) (caller_insns caller3 @ insns callee3)
                        else (\<forall>x\<in>set (caller_insns ?caller1).
                                \<forall>r\<in>registers_of x. r < caller_registers_size ?caller1)
                             \<and> (\<forall>r\<in>(case inline_srcs test_plugin of None \<Rightarrow> {}
                                       | Some alt_srcs \<Rightarrow> set alt_srcs)
                                      \<union> set_option (reg_for_return test_plugin).
                                   r < caller_registers_size ?caller1 + registers_size test_callee)
                             \<and> adds_no_register
                                 (remove_move_result test_plugin ?caller1,
                                  test_callee\<lparr>insns := moves @ body\<rparr>)
                                 (caller3, callee3))
                       \<longrightarrow> (\<forall>y\<in>set (insns merged).
                              \<forall>r\<in>registers_of y. r < registers_size merged)))"
    by blast
  have rp: "register_passes test_plugin ?caller1 test_callee =
              Inr (?caller1, test_callee\<lparr>insns := ?staged\<rparr>)"
    by (simp add: register_passes_def inline_args_def return_register_def remove_move_result_def
          move_arg_regs_def get_param_instructions_def remap_registers_def remap_insn_def test_eval)
  have rm: "remove_move_result test_plugin ?caller1 = ?caller1"
    by (simp add: remove_move_result_def test_eval)
  from res rp have mb: "moves @ body = ?staged"
    unfolding rm by (simp add: test_eval)
  have hook: "update_after_reg_remap test_plugin
                (remove_move_result test_plugin ?caller1, test_callee\<lparr>insns := moves @ body\<rparr>)
              = ((?caller1, test_callee\<lparr>insns := ?hooked\<rparr>), False)"
    unfolding rm mb by (simp add: test_eval)
  have blocks: "caller_has_blocks ?caller1" by (simp add: test_eval)
  have caller_regs: "\<forall>x\<in>set (caller_insns ?caller1). \<forall>r\<in>registers_of x. r < caller_registers_size ?caller1"
    by (simp add: caller_insns_def registers_of_def test_eval)
  have plugin_regs: "\<forall>r\<in>(case inline_srcs test_plugin of None \<Rightarrow> {} | Some alt_srcs \<Rightarrow> set alt_srcs)
                         \<union> set_option (reg_for_return test_plugin).
                      r < caller_registers_size ?caller1 + registers_size test_callee"
    by (simp add: test_eval)
  have keeps: "adds_no_register
                 (remove_move_result test_plugin ?caller1, test_callee\<lparr>insns := moves @ body\<rparr>)
                 (?caller1, test_callee\<lparr>insns := ?hooked\<rparr>)"
    unfolding rm mb
    by (simp add: adds_no_register_def registers_in_def registers_of_def caller_insns_def test_eval)
  from fin [rule_format, OF conjI [OF hook blocks]] caller_regs plugin_regs keeps
  obtain merged where
    m1: "inline_cfg test_plugin (\<lambda>merged. 0) test_caller test_callee = Inr merged"
    and m2: "registers_size merged = caller_registers_size ?caller1 + registers_size test_callee"
    and m3: "\<forall>y\<in>set (insns merged). \<forall>r\<in>registers_of y. r < registers_size merged"
    by auto
  from m1 test_inline_cfg [of "\<lambda>merged. 0"] have me: "merged = test_expected" by simp
  have a1: "inline_cfg test_plugin (\<lambda>merged. 0) test_caller test_callee = Inr test_expected"
    using m1 me by simp
  have a2: "caller_registers_size test_caller = 4" "registers_size test_callee = 4"
    by (simp_all add: test_eval)
  have a3: "registers_size test_expected = 5 + 4"
    using m2 me by (simp add: test_eval)
  have a4: "registers_in (insns test_expected) \<subseteq> {r. r < registers_size test_expected}"
    using m3 me by (auto simp: registers_in_def)

  let ?plugin = "base_plugin\<lparr>update_after_reg_remap := (\<lambda>staged. (staged, True))\<rparr>"
  let ?callee = "\<lparr>insns =
           [\<lparr>opcode = IOPCODE_LOAD_PARAM_WIDE, srcs = [], dest = Some 0\<rparr>,
            \<lparr>opcode = IOPCODE_LOAD_PARAM_OBJECT, srcs = [], dest = Some 2\<rparr>,
            \<lparr>opcode = OPCODE_OTHER 3, srcs = [0, 2], dest = Some 3\<rparr>,
            \<lparr>opcode = OPCODE_RETURN, srcs = [3], dest = None\<rparr>],
         registers_size = (4::reg_t)\<rparr>"
  let ?caller = "\<lparr>caller_others = [\<lparr>opcode = OPCODE_OTHER 1, srcs = [], dest = Some 0\<rparr>],
         site_insn = \<lparr>opcode = OPCODE_OTHER 0, srcs = [0, 2], dest = None\<rparr>,
         site_cfg_is_caller = True, caller_editable = True,
         site_first_of_block = False, site_last_of_block = False, site_block_goes_to = False,
         site_has_move_result_any = True,
         site_move_result = Some \<lparr>opcode = OPCODE_OTHER 2, srcs = [], dest = Some 2\<rparr>,
         caller_has_blocks = True, caller_registers_size = (3::reg_t)\<rparr>"
  let ?split = "?caller\<lparr>site_last_of_block := True, site_block_goes_to := True\<rparr>"
  let ?staged' = "[\<lparr>opcode = OPCODE_MOVE_WIDE, srcs = [0], dest = Some (3::reg_t)\<rparr>,
         \<lparr>opcode = OPCODE_MOVE_OBJECT, srcs = [2], dest = Some 5\<rparr>,
         \<lparr>opcode = OPCODE_OTHER 3, srcs = [3, 5], dest = Some 6\<rparr>,
         \<lparr>opcode = OPCODE_MOVE, srcs = [6], dest = Some 2\<rparr>]"
  have t1: "site_cfg_is_caller ?caller" and t2: "caller_editable ?caller"
    and t3: "inline_after ?plugin \<and> site_last_of_block ?caller \<longrightarrow> site_block_goes_to ?caller"
    by simp_all
  have before': "update_before_reg_remap ?plugin (split_site ?plugin ?caller, ?callee)
                  = (?split, ?callee)"
    by (simp add: split_site_def maybe_split_def maybe_split_block_def split_block_def
          base_plugin_def)
  have ps': "get_param_instructions (insns ?callee) =
              [\<lparr>opcode = IOPCODE_LOAD_PARAM_WIDE, srcs = [], dest = Some 0\<rparr>,
               \<lparr>opcode = IOPCODE_LOAD_PARAM_OBJECT, srcs = [], dest = Some 2\<rparr>]"
    by (simp add: get_param_instructions_def)
  have dests': "\<forall>p\<in>set (get_param_instructions (insns ?callee)). dest p \<noteq> None"
    unfolding ps' by simp
  have enough': "length (get_param_instructions (insns ?callee)) \<le> length (inline_args ?plugin ?split)"
    unfolding ps' by (simp add: inline_args_def base_plugin_def)
  have rets': "returns_have_src (insns ?callee)"
    by (simp add: returns_have_src_def)
  have mres': "move_result_has_dest ?split"
    by (simp add: move_result_has_dest_def)
  have callee_regs': "\<forall>x\<in>set (insns ?callee). \<forall>r\<in>registers_of x. r < registers_size ?callee"
    by (simp add: registers_of_def)
  have no_wrap': "unat (caller_registers_size ?split) + unat (registers_size ?callee) < 2 ^ 32"
    by simp
  from inline_cfg_register_disjointness
         [where recompute = "\<lambda>merged. 7",
          OF t1 t2 t3 before' dests' enough' rets' mres' callee_regs' no_wrap', THEN conjunct2]
  obtain moves' body' where
    res': "register_passes ?plugin ?split ?callee =
            Inr (remove_move_result ?plugin ?split, ?callee\<lparr>insns := moves' @ body'\<rparr>)"
    and fin': "\<forall>caller3 callee3 need.
                 update_after_reg_remap ?plugin
                   (remove_move_result ?plugin ?split, ?callee\<lparr>insns := moves' @ body'\<rparr>)
                   = ((caller3, callee3), need)
                 \<and> caller_has_blocks caller3 \<longrightarrow>
                 (\<exists>merged.
                     inline_cfg ?plugin (\<lambda>merged. 7) ?caller ?callee = Inr merged
                   \<and> registers_size merged =
                       (if need then (\<lambda>merged. 7) (caller_insns caller3 @ insns callee3)
                        else caller_registers_size ?split + registers_size ?callee)
                   \<and> set (insns merged) \<subseteq> set (caller_insns caller3 @ insns callee3)
                   \<and> ((if need
                        then \<forall>r\<in>registers_in (caller_insns caller3 @ insns callee3).
                               r < (\<lambda>merged. 7) (caller_insns caller3 @ insns callee3)
                        else (\<forall>x\<in>set (caller_insns ?split).
                                \<forall>r\<in>registers_of x. r < caller_registers_size ?split)
                             \<and> (\<forall>r\<in>(case inline_srcs ?plugin of None \<Rightarrow> {}
                                       | Some alt_srcs \<Rightarrow> set alt_srcs)
                                      \<union> set_option (reg_for_return ?plugin).
                                   r < caller_registers_size ?split + registers_size ?callee)
                             \<and> adds_no_register
                                 (remove_move_result ?plugin ?split,
                                  ?callee\<lparr>insns := moves' @ body'\<rparr>)
                                 (caller3, callee3))
                       \<longrightarrow> (\<forall>y\<in>set (insns merged).
                              \<forall>r\<in>registers_of y. r < registers_size merged)))"
    by blast
  let ?removed = "?split\<lparr>site_move_result := None\<rparr>"
  have rp': "register_passes ?plugin ?split ?callee = Inr (?removed, ?callee\<lparr>insns := ?staged'\<rparr>)"
    by (simp add: register_passes_def inline_args_def return_register_def remove_move_result_def
          move_arg_regs_def get_param_instructions_def remap_registers_def remap_insn_def
          base_plugin_def)
  have rm': "remove_move_result ?plugin ?split = ?removed"
    by (simp add: remove_move_result_def base_plugin_def)
  from res' rp' have mb': "moves' @ body' = ?staged'"
    unfolding rm' by simp
  have hook': "update_after_reg_remap ?plugin
                (remove_move_result ?plugin ?split, ?callee\<lparr>insns := moves' @ body'\<rparr>)
              = ((?removed, ?callee\<lparr>insns := ?staged'\<rparr>), True)"
    unfolding rm' mb' by simp
  have blocks': "caller_has_blocks ?removed" by simp
  have scanned: "\<forall>r\<in>registers_in (caller_insns ?removed @ insns (?callee\<lparr>insns := ?staged'\<rparr>)).
                   r < (\<lambda>merged. 7) (caller_insns ?removed @ insns (?callee\<lparr>insns := ?staged'\<rparr>))"
    by (simp add: registers_in_def registers_of_def caller_insns_def)
  from fin' [rule_format, OF conjI [OF hook' blocks']] scanned
  obtain merged where
    n1: "inline_cfg ?plugin (\<lambda>merged. 7) ?caller ?callee = Inr merged"
    and n2: "registers_size merged = 7"
    and n3: "\<forall>y\<in>set (insns merged). \<forall>r\<in>registers_of y. r < registers_size merged"
    by auto
  have "inline_cfg ?plugin (\<lambda>merged. 7) ?caller ?callee =
          Inr \<lparr>insns = \<lparr>opcode = OPCODE_OTHER 1, srcs = [], dest = Some 0\<rparr> # ?staged',
               registers_size = 7\<rparr>"
    by (simp add: inliner_eval base_plugin_def)
  with n1 have n4: "\<lparr>opcode = OPCODE_OTHER 3, srcs = [3, 5], dest = Some 6\<rparr> \<in> set (insns merged)"
    by auto
  from n1 n2 n3 n4 have b: "\<exists>merged.
         inline_cfg ?plugin (\<lambda>merged. 7) ?caller ?callee = Inr merged
       \<and> registers_size merged = 7
       \<and> \<lparr>opcode = OPCODE_OTHER 3, srcs = [3, 5], dest = Some 6\<rparr> \<in> set (insns merged)
       \<and> (\<forall>y\<in>set (insns merged). \<forall>r\<in>registers_of y. r < 7)"
    by auto
  from a1 a2 a3 a4 b show ?thesis by (intro conjI)
qed

text \<open>
  C4 as stated fails when the plugin's hooks edit the code, as the object inliner's do.  In
  \<open>ObjectInlinerTest.class_inline_with_fields_and_swaps\<close> the caller has 4 registers before
  the inlining.  The hook that runs before the remapping allocates a fifth, so the callee's
  registers are incremented by 5 and not by the pre-inline size 4: the callee's
  \<open>move-result-pseudo-object v2\<close> becomes \<open>v7\<close>.  The hook that runs after it makes the
  callee's \<open>iget v0\<close> of the swapped field read the caller's \<open>v0\<close>: this instruction comes
  from the callee, is not in the caller, and uses a register below the caller's pre-inline
  \<open>registers_size\<close>.
\<close>

theorem inline_cfg_plugin_breaks_disjointness:
  "inline_cfg test_plugin (\<lambda>merged. 0) test_caller test_callee = Inr test_expected
   \<and> caller_registers_size test_caller = 4
   \<and> \<lparr>opcode = OPCODE_OTHER 8, srcs = [0], dest = None\<rparr> \<in> set (insns test_callee)
   \<and> \<lparr>opcode = OPCODE_OTHER 12, srcs = [0], dest = None\<rparr> \<in> set (insns test_expected)
   \<and> \<lparr>opcode = OPCODE_OTHER 12, srcs = [0], dest = None\<rparr> \<notin> set (caller_insns test_caller)
   \<and> 0 \<in> registers_of \<lparr>opcode = OPCODE_OTHER 12, srcs = [0], dest = None\<rparr>
   \<and> (0 :: reg_t) < caller_registers_size test_caller
   \<and> \<lparr>opcode = OPCODE_OTHER 2, srcs = [], dest = Some 2\<rparr> \<in> set (insns test_callee)
   \<and> \<lparr>opcode = OPCODE_OTHER 2, srcs = [], dest = Some (2 + 5)\<rparr> \<in> set (insns test_expected)
   \<and> \<lparr>opcode = OPCODE_OTHER 2, srcs = [], dest = Some (2 + caller_registers_size test_caller)\<rparr>
        \<notin> set (insns test_expected)"
  by (simp add: inliner_eval test_eval registers_of_def)

section \<open>Proofs: CFG inliner, throw edges\<close>

lemma throw_edge_fields:
  "is_throw_edge \<lparr>edge_src = b, edge_target = t, edge_type = EDGE_THROW ct i\<rparr>"
  "catch_type \<lparr>edge_src = b, edge_target = t, edge_type = EDGE_THROW ct i\<rparr> = ct"
  "throw_index \<lparr>edge_src = b, edge_target = t, edge_type = EDGE_THROW ct i\<rparr> = i"
  by (simp_all add: is_throw_edge_def catch_type_def throw_index_def)

lemma add_throw_edges_eq:
  "add_throw_edges m_edges b i cs = m_edges @ new_throw_edges b i cs"
  by (induction cs arbitrary: m_edges i) (simp_all add: add_edge_def)

lemma new_throw_edges_src: "\<forall>e\<in>set (new_throw_edges b i cs). edge_src e = b \<and> is_throw_edge e"
  by (induction cs arbitrary: i) (simp_all add: throw_edge_fields)

lemma new_throw_edges_length: "length (new_throw_edges b i cs) = length cs"
  by (induction cs arbitrary: i) simp_all

lemma new_throw_edges_nth:
  "k < length cs \<Longrightarrow>
   new_throw_edges b i cs ! k =
     \<lparr>edge_src = b, edge_target = edge_target (cs ! k),
      edge_type = EDGE_THROW (catch_type (cs ! k)) (i + of_nat k)\<rparr>"
proof (induction cs arbitrary: i k)
  case Nil
  then show ?case by simp
next
  case (Cons c cs)
  show ?case
  proof (cases k)
    case 0
    then show ?thesis by simp
  next
    case (Suc j)
    with Cons.prems have "j < length cs" by simp
    from Cons.IH [OF this, of "i + 1"] Suc show ?thesis
      by (simp add: add.assoc add.commute)
  qed
qed

lemma new_throw_edges_targets:
  "map edge_target (new_throw_edges b i cs) = map edge_target cs"
  "map catch_type (new_throw_edges b i cs) = map catch_type cs"
  by (induction cs arbitrary: i) (simp_all add: throw_edge_fields)

lemma new_throw_edges_index_bounds:
  "unat i + length cs < 2 ^ 32 \<Longrightarrow>
   (\<forall>e\<in>set (new_throw_edges b i cs). i \<le> throw_index e) \<and>
   sorted (map throw_index (new_throw_edges b i cs))"
proof (induction cs arbitrary: i)
  case Nil
  show ?case by simp
next
  case (Cons c cs)
  from Cons.prems have "unat i + unat (1 :: 32 word) < 2 ^ 32" by simp
  then have u: "unat (i + 1) = unat i + 1"
    by (simp add: unat_add_lem [THEN iffD1])
  with Cons.prems have "unat (i + 1) + length cs < 2 ^ 32" by simp
  from Cons.IH [OF this]
  have ih: "\<forall>e\<in>set (new_throw_edges b (i + 1) cs). i + 1 \<le> throw_index e"
    and so: "sorted (map throw_index (new_throw_edges b (i + 1) cs))"
    by simp_all
  from u have le: "i \<le> i + 1" by (simp add: word_le_nat_alt)
  with ih have "\<forall>e\<in>set (new_throw_edges b (i + 1) cs). i \<le> throw_index e"
    by (auto intro: order_trans)
  with so show ?case by (simp add: throw_edge_fields)
qed


lemma insort_key_append:
  "\<forall>y\<in>set ys. f x \<le> f y \<Longrightarrow> insort_key f x (zs @ ys) = insort_key f x zs @ ys"
proof (induction zs)
  case Nil
  then show ?case by (cases ys) simp_all
next
  case (Cons z zs)
  then show ?case by simp
qed

lemma sort_key_append_sorted:
  assumes "sorted (map f ys)" and "\<forall>x\<in>set xs. \<forall>y\<in>set ys. f x \<le> f y"
  shows "sort_key f (xs @ ys) = sort_key f xs @ ys"
  using assms(2)
proof (induction xs)
  case Nil
  from assms(1) show ?case by (simp add: sort_key_id_if_sorted)
next
  case (Cons x xs)
  then have "sort_key f (xs @ ys) = sort_key f xs @ ys" by simp
  moreover from Cons.prems have "\<forall>y\<in>set ys. f x \<le> f y" by simp
  ultimately show ?case by (simp add: insort_key_append)
qed

lemma sorted_le_last:
  fixes xs :: "('a :: linorder) list"
  shows "sorted xs \<Longrightarrow> x \<in> set xs \<Longrightarrow> x \<le> last xs"
  by (induction xs) auto

lemma outgoing_sorted: "sorted (map throw_index (get_outgoing_throws_in_order m_edges b))"
  by (simp add: get_outgoing_throws_in_order_def)

lemma outgoing_set:
  "set (get_outgoing_throws_in_order m_edges b) = {e \<in> set m_edges. edge_src e = b \<and> is_throw_edge e}"
  by (auto simp: get_outgoing_throws_in_order_def)

lemma outgoing_le_last:
  assumes "e \<in> set (get_outgoing_throws_in_order m_edges b)"
  shows "throw_index e \<le> throw_index (last (get_outgoing_throws_in_order m_edges b))"
proof -
  let ?ex = "get_outgoing_throws_in_order m_edges b"
  from assms have ne: "?ex \<noteq> []" by auto
  from assms have "throw_index e \<in> set (map throw_index ?ex)" by simp
  with outgoing_sorted [of m_edges b] have "throw_index e \<le> last (map throw_index ?ex)"
    by (rule sorted_le_last)
  with ne show ?thesis by (simp add: last_map)
qed

lemma outgoing_append_other:
  "\<forall>e\<in>set new. edge_src e \<noteq> b \<Longrightarrow>
   get_outgoing_throws_in_order (m_edges @ new) b = get_outgoing_throws_in_order m_edges b"
proof -
  assume "\<forall>e\<in>set new. edge_src e \<noteq> b"
  then have "filter (\<lambda>e. edge_src e = b \<and> is_throw_edge e) new = []"
    by (auto simp: filter_empty_conv)
  then show ?thesis by (simp add: get_outgoing_throws_in_order_def)
qed

lemma outgoing_append_new:
  assumes fit: "unat start + length cs < 2 ^ 32"
    and above: "\<forall>e\<in>set (get_outgoing_throws_in_order m_edges b). throw_index e \<le> start"
  shows "get_outgoing_throws_in_order (m_edges @ new_throw_edges b start cs) b =
           get_outgoing_throws_in_order m_edges b @ new_throw_edges b start cs"
proof -
  let ?new = "new_throw_edges b start cs"
  let ?old = "filter (\<lambda>e. edge_src e = b \<and> is_throw_edge e) m_edges"
  have keep: "filter (\<lambda>e. edge_src e = b \<and> is_throw_edge e) ?new = ?new"
    using new_throw_edges_src [of b start cs] by (simp add: filter_id_conv)
  from new_throw_edges_index_bounds [OF fit, of b]
  have lo: "\<forall>e\<in>set ?new. start \<le> throw_index e" and so: "sorted (map throw_index ?new)"
    by simp_all
  have "\<forall>x\<in>set ?old. \<forall>y\<in>set ?new. throw_index x \<le> throw_index y"
  proof (intro ballI)
    fix x y assume "x \<in> set ?old" "y \<in> set ?new"
    then have "throw_index x \<le> start" "start \<le> throw_index y"
      using above lo by (auto simp: outgoing_set)
    then show "throw_index x \<le> throw_index y" by (rule order_trans)
  qed
  with so have "sort_key throw_index (?old @ ?new) = sort_key throw_index ?old @ ?new"
    by (rule sort_key_append_sorted)
  then show ?thesis
    by (simp add: get_outgoing_throws_in_order_def keep)
qed

lemma succ_no_wrap:
  fixes i :: "32 word"
  assumes "unat i + n + 1 < 2 ^ 32"
  shows "unat (i + 1) = unat i + 1" and "i < i + 1" and "unat (i + 1) + n < 2 ^ 32"
proof -
  from assms have "unat i + unat (1 :: 32 word) < 2 ^ 32" by simp
  then show u: "unat (i + 1) = unat i + 1"
    by (simp add: unat_add_lem [THEN iffD1])
  then show "i < i + 1" by (simp add: word_less_nat_alt)
  from u assms show "unat (i + 1) + n < 2 ^ 32" by simp
qed

lemma callee_block_throws_self:
  assumes fit: "\<forall>e\<in>set (get_outgoing_throws_in_order m_edges b).
                  unat (throw_index e) + length cs + 1 < 2 ^ 32"
    and len: "length cs < 2 ^ 32"
  shows "get_outgoing_throws_in_order (callee_block_throws last_insn can_throw cs m_edges b) b =
           expected_throws last_insn can_throw cs b (get_outgoing_throws_in_order m_edges b)"
proof -
  let ?ex = "get_outgoing_throws_in_order m_edges b"
  show ?thesis
  proof (cases "?ex = []")
    case True
    have "get_outgoing_throws_in_order (m_edges @ new_throw_edges b 0 cs) b =
            ?ex @ new_throw_edges b 0 cs"
      using len True by (intro outgoing_append_new) simp_all
    with True show ?thesis
      by (simp add: callee_block_throws_def expected_throws_def add_throw_edges_eq
            split: option.splits)
  next
    case False
    then have "last ?ex \<in> set ?ex" by simp
    with fit have f: "unat (throw_index (last ?ex)) + length cs + 1 < 2 ^ 32" by blast
    note s = succ_no_wrap [OF f]
    have "\<forall>e\<in>set ?ex. throw_index e \<le> throw_index (last ?ex) + 1"
    proof
      fix e assume "e \<in> set ?ex"
      then have "throw_index e \<le> throw_index (last ?ex)" by (rule outgoing_le_last)
      with s(2) show "throw_index e \<le> throw_index (last ?ex) + 1" by simp
    qed
    with s(3) have "get_outgoing_throws_in_order
            (m_edges @ new_throw_edges b (throw_index (last ?ex) + 1) cs) b =
            ?ex @ new_throw_edges b (throw_index (last ?ex) + 1) cs"
      by (intro outgoing_append_new)
    with False show ?thesis
      by (simp add: callee_block_throws_def expected_throws_def add_throw_edges_eq)
  qed
qed

lemma callee_block_throws_other:
  assumes "b' \<noteq> b"
  shows "get_outgoing_throws_in_order (callee_block_throws last_insn can_throw cs m_edges b) b' =
           get_outgoing_throws_in_order m_edges b'"
proof -
  have "\<forall>e\<in>set (new_throw_edges b i cs). edge_src e \<noteq> b'" for i
    using new_throw_edges_src [of b i cs] assms by auto
  then show ?thesis
    by (auto simp: callee_block_throws_def Let_def add_throw_edges_eq outgoing_append_other
          split: option.splits)
qed

lemma add_callee_throws_other:
  "b \<notin> set bs \<Longrightarrow>
   get_outgoing_throws_in_order (add_callee_throws_to_caller last_insn can_throw m_edges bs cs) b =
     get_outgoing_throws_in_order m_edges b"
  by (induction bs arbitrary: m_edges) (auto simp: callee_block_throws_other)

lemma add_callee_throws_self:
  assumes "distinct bs" and "b \<in> set bs"
    and "\<forall>e\<in>set (get_outgoing_throws_in_order m_edges b).
           unat (throw_index e) + length cs + 1 < 2 ^ 32"
    and "length cs < 2 ^ 32"
  shows "get_outgoing_throws_in_order (add_callee_throws_to_caller last_insn can_throw m_edges bs cs) b =
           expected_throws last_insn can_throw cs b (get_outgoing_throws_in_order m_edges b)"
  using assms
proof (induction bs arbitrary: m_edges)
  case Nil
  then show ?case by simp
next
  case (Cons a bs)
  show ?case
  proof (cases "a = b")
    case True
    with Cons.prems have "b \<notin> set bs" by simp
    then show ?thesis
      using True Cons.prems(3,4)
      by (simp add: add_callee_throws_other callee_block_throws_self)
  next
    case False
    then have same: "get_outgoing_throws_in_order
                       (callee_block_throws last_insn can_throw cs m_edges a) b =
                     get_outgoing_throws_in_order m_edges b"
      by (intro callee_block_throws_other) simp
    from Cons.prems False have "distinct bs" "b \<in> set bs" by auto
    from Cons.IH [OF this, of "callee_block_throws last_insn can_throw cs m_edges a"]
      Cons.prems(3,4) same
    show ?thesis by simp
  qed
qed


lemma new_throw_edges_indices:
  "map throw_index (new_throw_edges b start cs) = map (\<lambda>k. start + of_nat k) [0..<length cs]"
proof (rule nth_equalityI)
  show "length (map throw_index (new_throw_edges b start cs))
          = length (map (\<lambda>k. start + of_nat k) [0..<length cs])"
    by (simp add: new_throw_edges_length)
next
  fix k assume "k < length (map throw_index (new_throw_edges b start cs))"
  then have k: "k < length cs" by (simp add: new_throw_edges_length)
  then show "map throw_index (new_throw_edges b start cs) ! k
               = map (\<lambda>k. start + of_nat k) [0..<length cs] ! k"
    by (simp add: new_throw_edges_length new_throw_edges_nth throw_edge_fields)
qed

text \<open>
  C5.  Let the call site have outgoing throw edges \<open>caller_throws\<close> (in catch-priority
  order) and let \<open>b\<close> be one of the callee blocks.  After \<open>connect_cfgs\<close> has added the
  throw edges, the outgoing throw edges of \<open>b\<close>, in order, are: when \<open>b\<close> had none and
  ends in a throwing instruction, one edge to each caller catch handler, in the caller's
  order, with indices counting up from 0; when \<open>b\<close> had none and does not end in a
  throwing instruction, none; when \<open>b\<close> had throw edges and the last is not a catch-all,
  the existing edges followed by one edge to each caller catch handler in the caller's
  order, every new index strictly greater than every existing index; when the existing
  chain ends in a catch-all, the existing edges and nothing more.  Each new edge goes from
  \<open>b\<close> to the target of the corresponding caller catch and carries its catch type.
  The indices are \<open>uint32_t\<close>: the statement needs them not to wrap around.
\<close>

theorem callee_throw_edges_appended:
  assumes dist: "distinct callee_blocks" and mem: "b \<in> set callee_blocks"
    and in_try: "get_outgoing_throws_in_order m_edges callsite \<noteq> []"
    and fit: "\<forall>e\<in>set m_edges.
                unat (throw_index e) + length (get_outgoing_throws_in_order m_edges callsite) + 1
                  < 2 ^ 32"
  shows
    "(let caller_throws = get_outgoing_throws_in_order m_edges callsite;
          existing = get_outgoing_throws_in_order m_edges b;
          after = get_outgoing_throws_in_order
                    (connect_cfgs_throws last_insn can_throw m_edges callsite callee_blocks) b;
          ends_in_throw = (case last_insn b of None \<Rightarrow> False | Some op \<Rightarrow> can_throw op)
      in (existing = [] \<and> ends_in_throw \<longrightarrow> after = new_throw_edges b 0 caller_throws)
       \<and> (existing = [] \<and> \<not> ends_in_throw \<longrightarrow> after = [])
       \<and> (existing \<noteq> [] \<and> catch_type (last existing) \<noteq> None \<longrightarrow>
            after = existing
                    @ new_throw_edges b (throw_index (last existing) + 1) caller_throws
            \<and> (\<forall>e\<in>set existing.
                 \<forall>n\<in>set (new_throw_edges b (throw_index (last existing) + 1) caller_throws).
                   throw_index e < throw_index n))
       \<and> (existing \<noteq> [] \<and> catch_type (last existing) = None \<longrightarrow> after = existing)
       \<and> (\<forall>start.
             map edge_target (new_throw_edges b start caller_throws) = map edge_target caller_throws
           \<and> map catch_type (new_throw_edges b start caller_throws) = map catch_type caller_throws
           \<and> map throw_index (new_throw_edges b start caller_throws)
               = map (\<lambda>k. start + of_nat k) [0..<length caller_throws]
           \<and> (\<forall>n\<in>set (new_throw_edges b start caller_throws). edge_src n = b)))"
proof -
  let ?cs = "get_outgoing_throws_in_order m_edges callsite"
  let ?ex = "get_outgoing_throws_in_order m_edges b"
  let ?after = "get_outgoing_throws_in_order
                  (connect_cfgs_throws last_insn can_throw m_edges callsite callee_blocks) b"
  from in_try obtain c where "c \<in> set ?cs" by (cases ?cs) auto
  then have "c \<in> set m_edges" by (simp add: outgoing_set)
  with fit have len: "length ?cs < 2 ^ 32" by fastforce
  have fit_b: "\<forall>e\<in>set ?ex. unat (throw_index e) + length ?cs + 1 < 2 ^ 32"
    using fit by (simp add: outgoing_set)
  have after: "?after = expected_throws last_insn can_throw ?cs b ?ex"
    using in_try add_callee_throws_self [OF dist mem fit_b len]
    by (simp add: connect_cfgs_throws_def Let_def)
  have above: "\<forall>e\<in>set ?ex.
                 \<forall>n\<in>set (new_throw_edges b (throw_index (last ?ex) + 1) ?cs).
                   throw_index e < throw_index n" if ne: "?ex \<noteq> []"
  proof (intro ballI)
    fix e n
    assume e: "e \<in> set ?ex"
      and n: "n \<in> set (new_throw_edges b (throw_index (last ?ex) + 1) ?cs)"
    from ne have "last ?ex \<in> set ?ex" by simp
    with fit_b have f: "unat (throw_index (last ?ex)) + length ?cs + 1 < 2 ^ 32" by blast
    note s = succ_no_wrap [OF f]
    from new_throw_edges_index_bounds [OF s(3), of b] n
    have "throw_index (last ?ex) + 1 \<le> throw_index n" by blast
    moreover from e have "throw_index e \<le> throw_index (last ?ex)" by (rule outgoing_le_last)
    ultimately show "throw_index e < throw_index n" using s(2) by simp
  qed
  show ?thesis
    unfolding Let_def after
    using above new_throw_edges_src [of b _ ?cs]
    by (auto simp: expected_throws_def new_throw_edges_targets new_throw_edges_indices
          split: option.splits)
qed


theorem callee_throw_edges_appended_witness:
  "distinct [1, 2, 3 :: nat] \<and> (2 :: nat) \<in> set [1, 2, 3]
   \<and> get_outgoing_throws_in_order
        [\<lparr>edge_src = 0, edge_target = 11, edge_type = EDGE_THROW None 1\<rparr>,
         \<lparr>edge_src = 0, edge_target = 10, edge_type = EDGE_THROW (Some 7) 0\<rparr>,
         \<lparr>edge_src = 2, edge_target = 20, edge_type = EDGE_THROW (Some 5) 0\<rparr>,
         \<lparr>edge_src = 3, edge_target = 30, edge_type = EDGE_THROW None 0\<rparr>,
         \<lparr>edge_src = 0, edge_target = 4, edge_type = EDGE_GOTO\<rparr>] 0
       = [\<lparr>edge_src = 0, edge_target = 10, edge_type = EDGE_THROW (Some 7) 0\<rparr>,
          \<lparr>edge_src = 0, edge_target = 11, edge_type = EDGE_THROW None 1\<rparr>]
   \<and> get_outgoing_throws_in_order
        (connect_cfgs_throws (\<lambda>b. Some (OPCODE_OTHER 9)) (\<lambda>op. True)
           [\<lparr>edge_src = 0, edge_target = 11, edge_type = EDGE_THROW None 1\<rparr>,
            \<lparr>edge_src = 0, edge_target = 10, edge_type = EDGE_THROW (Some 7) 0\<rparr>,
            \<lparr>edge_src = 2, edge_target = 20, edge_type = EDGE_THROW (Some 5) 0\<rparr>,
            \<lparr>edge_src = 3, edge_target = 30, edge_type = EDGE_THROW None 0\<rparr>,
            \<lparr>edge_src = 0, edge_target = 4, edge_type = EDGE_GOTO\<rparr>]
           0 [1, 2, 3]) 2
       = [\<lparr>edge_src = 2, edge_target = 20, edge_type = EDGE_THROW (Some 5) 0\<rparr>,
          \<lparr>edge_src = 2, edge_target = 10, edge_type = EDGE_THROW (Some 7) 1\<rparr>,
          \<lparr>edge_src = 2, edge_target = 11, edge_type = EDGE_THROW None 2\<rparr>]"
proof -
  let ?E = "[\<lparr>edge_src = 0, edge_target = 11, edge_type = EDGE_THROW None 1\<rparr>,
            \<lparr>edge_src = 0, edge_target = 10, edge_type = EDGE_THROW (Some 7) 0\<rparr>,
            \<lparr>edge_src = 2, edge_target = 20, edge_type = EDGE_THROW (Some 5) 0\<rparr>,
            \<lparr>edge_src = 3, edge_target = 30, edge_type = EDGE_THROW None 0\<rparr>,
            \<lparr>edge_src = 0, edge_target = 4, edge_type = EDGE_GOTO\<rparr>]"
  have cs: "get_outgoing_throws_in_order ?E 0
       = [\<lparr>edge_src = 0, edge_target = 10, edge_type = EDGE_THROW (Some 7) 0\<rparr>,
          \<lparr>edge_src = 0, edge_target = 11, edge_type = EDGE_THROW None 1\<rparr>]"
    by (simp add: get_outgoing_throws_in_order_def is_throw_edge_def throw_index_def)
  have ex: "get_outgoing_throws_in_order ?E 2
       = [\<lparr>edge_src = 2, edge_target = 20, edge_type = EDGE_THROW (Some 5) 0\<rparr>]"
    by (simp add: get_outgoing_throws_in_order_def is_throw_edge_def throw_index_def)
  have h1: "distinct [1, 2, 3 :: nat]" and h2: "(2 :: nat) \<in> set [1, 2, 3]" by simp_all
  have h3: "get_outgoing_throws_in_order ?E 0 \<noteq> []" by (simp add: cs)
  have h4: "\<forall>e\<in>set ?E. unat (throw_index e) + length (get_outgoing_throws_in_order ?E 0) + 1 < 2 ^ 32"
    unfolding cs by (simp add: throw_index_def)
  from callee_throw_edges_appended [OF h1 h2 h3 h4, of "\<lambda>b. Some (OPCODE_OTHER 9)" "\<lambda>op. True"]
  have "get_outgoing_throws_in_order
          (connect_cfgs_throws (\<lambda>b. Some (OPCODE_OTHER 9)) (\<lambda>op. True) ?E 0 [1, 2, 3]) 2
        = [\<lparr>edge_src = 2, edge_target = 20, edge_type = EDGE_THROW (Some 5) 0\<rparr>,
           \<lparr>edge_src = 2, edge_target = 10, edge_type = EDGE_THROW (Some 7) 1\<rparr>,
           \<lparr>edge_src = 2, edge_target = 11, edge_type = EDGE_THROW None 2\<rparr>]"
    unfolding Let_def cs ex by (simp add: catch_type_def throw_index_def)
  with h1 h2 cs show ?thesis by simp
qed

section \<open>Proofs: PatriciaTreeMap\<close>

text \<open>
  C7.  For every map \<open>m\<close> and every combining function, \<open>m.union_with(combine, empty)\<close>
  returns the tree of \<open>m\<close> itself: the same pointer, nothing allocated, so
  \<open>reference_equals\<close> with the original holds.
\<close>

theorem union_with_empty_is_identity:
  "union_with V combine m Null n = (m, n)
   \<and> reference_equals (fst (union_with V combine m Null n)) m"
  by (cases m) (simp_all add: union_with_def reference_equals_def ptr_eq_def)

lemmas pt_eval =
  insert_or_assign_def union_with_def SimpleValue_def snd'_def combine_new_leaf_def
  combine_leaf_def join_def make_branch_def get_branching_bit_def get_lowest_bit_def
  is_zero_bit_def mask'_def match_prefix_def ptr_eq_def Let_def

text \<open>
  C1 fails on the code.  Over \<open>SimpleValue<int>\<close> (default 0) build \<open>{0 \<mapsto> 1, 1 \<mapsto> 1}\<close>
  and \<open>{0 \<mapsto> -1, 1 \<mapsto> 1}\<close> with \<open>insert_or_assign\<close> and take their \<open>union_with\<close> under
  addition.  The values at key 0 add up to the default; \<open>merge\<close> (line 813) builds the
  branch with \<open>make_shared\<close> instead of \<open>make_branch\<close> and leaves a branch whose left
  child is null.  The result binds exactly \<open>1 \<mapsto> 2\<close>, as the map built by
  \<open>insert_or_assign(1, 2)\<close> does, but \<open>equals\<close> is false on the two and \<open>size()\<close>
  throws \<open>internal_error\<close> on the first.
\<close>

theorem union_with_breaks_canonical_form:
  "insert_or_assign (SimpleValue (0::int)) (0::8 word) 1 Null 0 = (Leaf 1 0 1, 2)
   \<and> insert_or_assign (SimpleValue (0::int)) (1::8 word) 1 (Leaf 1 0 1) 2
       = (Branch 4 0 1 (Leaf 1 0 1) (Leaf 3 1 1), 5)
   \<and> insert_or_assign (SimpleValue (0::int)) (0::8 word) (- 1) Null 5 = (Leaf 6 0 (- 1), 7)
   \<and> insert_or_assign (SimpleValue (0::int)) (1::8 word) 1 (Leaf 6 0 (- 1)) 7
       = (Branch 9 0 1 (Leaf 6 0 (- 1)) (Leaf 8 1 1), 10)
   \<and> union_with (SimpleValue (0::int)) (\<lambda>x y. x + y)
        (Branch 4 0 1 (Leaf 1 0 1) (Leaf 3 (1::8 word) 1))
        (Branch 9 0 1 (Leaf 6 0 (- 1)) (Leaf 8 1 1)) 10
       = (Branch 11 0 1 Null (Leaf 10 1 2), 12)
   \<and> insert_or_assign (SimpleValue (0::int)) (1::8 word) 2 Null 12 = (Leaf 13 1 2, 14)
   \<and> (\<forall>k. at' (SimpleValue (0::int)) k (Branch 11 0 1 Null (Leaf 10 (1::8 word) 2))
            = at' (SimpleValue (0::int)) k (Leaf 13 1 2))
   \<and> \<not> equals (SimpleValue (0::int)) (Branch 11 0 1 Null (Leaf 10 (1::8 word) 2)) (Leaf 13 1 2)
   \<and> size' (Branch 11 0 1 Null (Leaf 10 (1::8 word) (2::int))) = Inl InternalError"
proof (intro conjI)
  show "\<forall>k. at' (SimpleValue (0::int)) k (Branch 11 0 1 Null (Leaf 10 (1::8 word) 2))
            = at' (SimpleValue (0::int)) k (Leaf 13 1 2)"
    by (auto simp: at'_def is_zero_bit_def)
qed (simp_all add: pt_eval size'_def iterator_begin_def)

lemma addr_ok_mono: "addr_ok n t \<Longrightarrow> n \<le> n' \<Longrightarrow> addr_ok n' t"
  by (cases t) auto

lemma subtree_addr:
  "addr_ok n t \<Longrightarrow> s \<in> subtrees t \<Longrightarrow>
   s = t \<or> (\<exists>a b. addr_of s = Some a \<and> addr_of t = Some b \<and> a < b)"
proof (induction t arbitrary: n)
  case Null
  then show ?case by simp
next
  case (Leaf a k v)
  then show ?case by simp
next
  case (Branch a p m l r)
  show ?case
  proof (cases "s = Branch a p m l r")
    case True
    then show ?thesis by simp
  next
    case False
    with Branch.prems consider "s \<in> subtrees l" | "s \<in> subtrees r" by auto
    then show ?thesis
    proof cases
      case 1
      with Branch.IH(1) [of a] Branch.prems(1)
      have "s = l \<or> (\<exists>c b. addr_of s = Some c \<and> addr_of l = Some b \<and> c < b)" by simp
      moreover from 1 have "l \<noteq> Null" by auto
      moreover from Branch.prems(1) have "addr_ok a l" by simp
      ultimately show ?thesis by (cases l) auto
    next
      case 2
      with Branch.IH(2) [of a] Branch.prems(1)
      have "s = r \<or> (\<exists>c b. addr_of s = Some c \<and> addr_of r = Some b \<and> c < b)" by simp
      moreover from 2 have "r \<noteq> Null" by auto
      moreover from Branch.prems(1) have "addr_ok a r" by simp
      ultimately show ?thesis by (cases r) auto
    qed
  qed
qed

lemma addr_below: "addr_ok n t \<Longrightarrow> addr_of t = Some a \<Longrightarrow> a < n"
  by (cases t) auto

lemma subtree_trans: "s \<in> subtrees l \<Longrightarrow> l \<in> subtrees t \<Longrightarrow> s \<in> subtrees t"
  by (induction t) auto

lemma subtrees_self: "t \<noteq> Null \<Longrightarrow> t \<in> subtrees t"
  by (cases t) auto

lemma combine_leaf_origin:
  assumes "combine_leaf V c v a k lv n = (t', n')" and "a < n"
  shows "n \<le> n' \<and> addr_ok n' t' \<and> (t' = Null \<or> t' = Leaf a k lv \<or> (\<exists>b. addr_of t' = Some b \<and> n \<le> b))"
  using assms by (auto simp: combine_leaf_def Let_def split: if_splits)

lemma combine_new_leaf_origin:
  assumes "combine_new_leaf V c k v n = (t', n')"
  shows "n \<le> n' \<and> addr_ok n' t' \<and> (t' = Null \<or> (\<exists>b. addr_of t' = Some b \<and> n \<le> b))"
  using assms by (auto simp: combine_new_leaf_def combine_leaf_def Let_def split: if_splits)

lemma join_origin:
  assumes "join p0 t0 p1 t1 n = (t', n')" and "addr_ok n t0" and "addr_ok n t1"
  shows "n \<le> n' \<and> addr_ok n' t' \<and> (\<exists>b. addr_of t' = Some b \<and> n \<le> b)"
  using assms by (auto simp: join_def Let_def split: if_splits)

lemma make_branch_origin:
  assumes "make_branch p m l r n = (t', n')" and "addr_ok n l" and "addr_ok n r"
  shows "n \<le> n' \<and> addr_ok n' t' \<and> (t' = l \<or> t' = r \<or> (\<exists>b. addr_of t' = Some b \<and> n \<le> b))"
  using assms by (auto simp: make_branch_def split: if_splits)

lemma update_origin:
  "addr_ok n t \<Longrightarrow> update V c k v t n = (t', n') \<Longrightarrow>
   n \<le> n' \<and> addr_ok n' t' \<and> from_heap n t t'"
proof (induction t arbitrary: n t' n')
  case Null
  with combine_new_leaf_origin [of V c k v n t' n'] show ?case
    by (auto simp: from_heap_def)
next
  case (Leaf a k' lv)
  show ?case
  proof (cases "k = k'")
    case True
    with Leaf combine_leaf_origin [of V c v a k' lv n t' n'] show ?thesis
      by (auto simp: from_heap_def)
  next
    case False
    obtain nl n1 where cn: "combine_new_leaf V c k v n = (nl, n1)" by (cases "combine_new_leaf V c k v n")
    note o = combine_new_leaf_origin [OF cn]
    show ?thesis
    proof (cases "nl = Null")
      case True
      with False cn Leaf o show ?thesis by (auto simp: from_heap_def)
    next
      case nn: False
      with False cn Leaf have j: "join k nl k' (Leaf a k' lv) n1 = (t', n')" by simp
      from Leaf.prems(1) o have "addr_ok n1 (Leaf a k' lv)" by auto
      from join_origin [OF j _ this] o show ?thesis by (auto simp: from_heap_def)
    qed
  qed
next
  case (Branch a p m l r)
  let ?t = "Branch a p m l r"
  from Branch.prems(1) have al: "addr_ok n l" and ar: "addr_ok n r" and an: "a < n"
    by (auto intro: addr_ok_mono)
  show ?case
  proof (cases "match_prefix k p m")
    case False
    obtain nl n1 where cn: "combine_new_leaf V c k v n = (nl, n1)" by (cases "combine_new_leaf V c k v n")
    note o = combine_new_leaf_origin [OF cn]
    show ?thesis
    proof (cases "nl = Null")
      case True
      with False cn Branch.prems o show ?thesis by (auto simp: from_heap_def)
    next
      case nn: False
      with False cn Branch.prems have j: "join k nl p ?t n1 = (t', n')" by simp
      from Branch.prems(1) o have "addr_ok n1 ?t" by auto
      from join_origin [OF j _ this] o show ?thesis by (auto simp: from_heap_def)
    qed
  next
    case mp: True
    show ?thesis
    proof (cases "is_zero_bit k m")
      case True
      obtain nl n1 where u: "update V c k v l n = (nl, n1)" by (cases "update V c k v l n")
      from Branch.IH(1) [OF al u] have o: "n \<le> n1" "addr_ok n1 nl" "from_heap n l nl" by auto
      show ?thesis
      proof (cases "ptr_eq nl l")
        case True
        with mp \<open>is_zero_bit k m\<close> u Branch.prems o show ?thesis
          by (auto simp: from_heap_def)
      next
        case False
        with mp \<open>is_zero_bit k m\<close> u Branch.prems
        have mb: "make_branch p m nl r n1 = (t', n')" by simp
        from ar o(1) have "addr_ok n1 r" by (rule addr_ok_mono)
        from make_branch_origin [OF mb o(2) this]
        have res: "n1 \<le> n'" "addr_ok n' t'"
          "t' = nl \<or> t' = r \<or> (\<exists>b. addr_of t' = Some b \<and> n1 \<le> b)" by auto
        have "from_heap n ?t t'"
        proof -
          from res(3) consider "t' = nl" | "t' = r" | b where "addr_of t' = Some b" "n1 \<le> b"
            by blast
          then show ?thesis
          proof cases
            case 1
            with o(3) show ?thesis by (auto simp: from_heap_def)
          next
            case 2
            then show ?thesis by (cases r) (auto simp: from_heap_def)
          next
            case 3
            with o(1) show ?thesis by (auto simp: from_heap_def)
          qed
        qed
        with res o(1) show ?thesis by auto
      qed
    next
      case False
      obtain nr n1 where u: "update V c k v r n = (nr, n1)" by (cases "update V c k v r n")
      from Branch.IH(2) [OF ar u] have o: "n \<le> n1" "addr_ok n1 nr" "from_heap n r nr" by auto
      show ?thesis
      proof (cases "ptr_eq nr r")
        case True
        with mp \<open>\<not> is_zero_bit k m\<close> u Branch.prems o show ?thesis
          by (auto simp: from_heap_def)
      next
        case pe: False
        with mp \<open>\<not> is_zero_bit k m\<close> u Branch.prems
        have mb: "make_branch p m l nr n1 = (t', n')" by simp
        from al o(1) have "addr_ok n1 l" by (rule addr_ok_mono)
        from make_branch_origin [OF mb this o(2)]
        have res: "n1 \<le> n'" "addr_ok n' t'"
          "t' = l \<or> t' = nr \<or> (\<exists>b. addr_of t' = Some b \<and> n1 \<le> b)" by auto
        have "from_heap n ?t t'"
        proof -
          from res(3) consider "t' = nr" | "t' = l" | b where "addr_of t' = Some b" "n1 \<le> b"
            by blast
          then show ?thesis
          proof cases
            case 1
            with o(3) show ?thesis by (auto simp: from_heap_def)
          next
            case 2
            then show ?thesis by (cases l) (auto simp: from_heap_def)
          next
            case 3
            with o(1) show ?thesis by (auto simp: from_heap_def)
          qed
        qed
        with res o(1) show ?thesis by auto
      qed
    qed
  qed
qed

lemma ptr_eq_from_heap:
  assumes "addr_ok n t" and "from_heap n t t'" and "ptr_eq t' t"
  shows "t' = t"
proof -
  from assms(2) consider "t' = Null" | "t' \<in> subtrees t" | a where "addr_of t' = Some a" "n \<le> a"
    by (auto simp: from_heap_def)
  then show ?thesis
  proof cases
    case 1
    with assms(3) show ?thesis by (cases t) (auto simp: ptr_eq_def)
  next
    case 2
    from subtree_addr [OF assms(1) 2] assms(3) show ?thesis by (auto simp: ptr_eq_def)
  next
    case 3
    with assms(3) have "addr_of t = Some a" by (simp add: ptr_eq_def)
    from addr_below [OF assms(1) this] 3(2) show ?thesis by simp
  qed
qed

lemma find_value_in_keys: "find_value k t = Some v \<Longrightarrow> k \<in> leaf_keys t"
  by (induction t) (auto split: if_splits)

lemma find_value_in_values: "find_value k t = Some v \<Longrightarrow> v \<in> leaf_values t"
  by (induction t) (auto split: if_splits)

lemma find_value_no_prefix:
  assumes "prefix_inv (Branch a p m l r)" and "\<not> match_prefix k p m"
  shows "find_value k (Branch a p m l r) = None"
proof (rule ccontr)
  assume "find_value k (Branch a p m l r) \<noteq> None"
  then obtain v where "find_value k (Branch a p m l r) = Some v" by auto
  then have "k \<in> leaf_keys (Branch a p m l r)" by (rule find_value_in_keys)
  with assms show False by auto
qed

lemma find_value_wrong_side:
  assumes "prefix_inv (Branch a p m l r)"
  shows "is_zero_bit k m \<Longrightarrow> find_value k r = None"
    and "\<not> is_zero_bit k m \<Longrightarrow> find_value k l = None"
proof -
  show "find_value k r = None" if "is_zero_bit k m"
  proof (rule ccontr)
    assume "find_value k r \<noteq> None"
    then obtain v where "find_value k r = Some v" by auto
    then have "k \<in> leaf_keys r" by (rule find_value_in_keys)
    with assms that show False by auto
  qed
  show "find_value k l = None" if "\<not> is_zero_bit k m"
  proof (rule ccontr)
    assume "find_value k l \<noteq> None"
    then obtain v where "find_value k l = Some v" by auto
    then have "k \<in> leaf_keys l" by (rule find_value_in_keys)
    with assms that show False by auto
  qed
qed

lemma combine_new_leaf_default:
  "is_default_value V (operation (default_value V)) \<Longrightarrow>
   combine_new_leaf V (\<lambda>x y. operation x) k v n = (Null, Suc n)"
  by (simp add: combine_new_leaf_def combine_leaf_def)

lemma combine_leaf_default:
  "is_default_value V (operation lv) \<Longrightarrow>
   combine_leaf V (\<lambda>x y. operation x) v a k lv n = (Null, n)"
  by (simp add: combine_leaf_def)

lemma find_value_of_key:
  "prefix_inv t \<Longrightarrow> k \<in> leaf_keys t \<Longrightarrow> find_value k t \<noteq> None"
  by (induction t) auto

lemma shrinks_refl: "prefix_inv t \<Longrightarrow> shrinks t t"
  by (simp add: shrinks_def)

lemma shrinks_make_branch_left:
  assumes "prefix_inv (Branch a p m l r)" and "shrinks l nl"
    and "make_branch p m nl r n1 = (t', n')"
  shows "shrinks (Branch a p m l r) t'"
  using assms
  by (auto simp: shrinks_def make_branch_def split: if_splits) blast+

lemma shrinks_make_branch_right:
  assumes "prefix_inv (Branch a p m l r)" and "shrinks r nr"
    and "make_branch p m l nr n1 = (t', n')"
  shows "shrinks (Branch a p m l r) t'"
  using assms
  by (auto simp: shrinks_def make_branch_def split: if_splits) blast+

lemma update_to_default:
  assumes "prefix_inv t" and "addr_ok n t"
    and "is_default_value V (operation (at' V k t))"
    and "update V (\<lambda>x y. operation x) k v t n = (t', n')"
  shows "find_value k t' = None \<and> shrinks t t'"
  using assms
proof (induction t arbitrary: n t' n')
  case Null
  then show ?case
    by (simp add: at'_def combine_new_leaf_default shrinks_def)
next
  case (Leaf a k' lv)
  then show ?case
    by (auto simp: at'_def combine_new_leaf_default combine_leaf_default shrinks_def
          split: if_splits)
next
  case (Branch a p m l r)
  let ?t = "Branch a p m l r"
  let ?c = "\<lambda>x y. operation x"
  from Branch.prems(2) have al: "addr_ok n l" and ar: "addr_ok n r"
    by (auto intro: addr_ok_mono)
  from Branch.prems(1) have pl: "prefix_inv l" and pr: "prefix_inv r" by auto
  show ?case
  proof (cases "match_prefix k p m")
    case False
    with Branch.prems(1) have none: "find_value k ?t = None" by (intro find_value_no_prefix)
    with Branch.prems(3) have "is_default_value V (operation (default_value V))"
      by (simp add: at'_def)
    with False Branch.prems(4) have "t' = ?t" by (simp add: combine_new_leaf_default)
    with none Branch.prems(1) show ?thesis by (simp add: shrinks_refl del: find_value.simps)
  next
    case mp: True
    show ?thesis
    proof (cases "is_zero_bit k m")
      case True
      obtain nl n1 where u: "update V ?c k v l n = (nl, n1)" by (cases "update V ?c k v l n")
      from Branch.prems(3) True have "is_default_value V (operation (at' V k l))"
        by (simp add: at'_def)
      from Branch.IH(1) [OF pl al this u] have ih: "find_value k nl = None" "shrinks l nl" by auto
      show ?thesis
      proof (cases "ptr_eq nl l")
        case pe: True
        from update_origin [OF al u] have "from_heap n l nl" by simp
        from ptr_eq_from_heap [OF al this pe] have "nl = l" .
        moreover from pe mp True u Branch.prems(4) have "t' = ?t" by simp
        ultimately show ?thesis using ih(1) True Branch.prems(1) by (simp add: shrinks_refl)
      next
        case False
        with mp True u Branch.prems(4) have mb: "make_branch p m nl r n1 = (t', n')" by simp
        have "find_value k t' = None"
          using mb ih(1) True find_value_wrong_side(1) [OF Branch.prems(1) True]
          by (auto simp: make_branch_def split: if_splits)
        with shrinks_make_branch_left [OF Branch.prems(1) ih(2) mb] show ?thesis by simp
      qed
    next
      case False
      obtain nr n1 where u: "update V ?c k v r n = (nr, n1)" by (cases "update V ?c k v r n")
      from Branch.prems(3) False have "is_default_value V (operation (at' V k r))"
        by (simp add: at'_def)
      from Branch.IH(2) [OF pr ar this u] have ih: "find_value k nr = None" "shrinks r nr" by auto
      show ?thesis
      proof (cases "ptr_eq nr r")
        case pe: True
        from update_origin [OF ar u] have "from_heap n r nr" by simp
        from ptr_eq_from_heap [OF ar this pe] have "nr = r" .
        moreover from pe mp False u Branch.prems(4) have "t' = ?t" by simp
        ultimately show ?thesis using ih(1) False Branch.prems(1) by (simp add: shrinks_refl)
      next
        case npe: False
        with mp False u Branch.prems(4) have mb: "make_branch p m l nr n1 = (t', n')" by simp
        have "find_value k t' = None"
          using mb ih(1) False find_value_wrong_side(2) [OF Branch.prems(1) False]
          by (auto simp: make_branch_def split: if_splits)
        with shrinks_make_branch_right [OF Branch.prems(1) ih(2) mb] show ?thesis by simp
      qed
    qed
  qed
qed

lemma go_to_next_leaf_succeeds:
  "go_to_next_leaf t st = Inr (st', lf) \<Longrightarrow>
     lf \<noteq> Null \<and> t \<noteq> Null \<and> leaves t + weight st = Suc (weight st') \<and>
     (stack_full st' \<longleftrightarrow> full t \<and> stack_full st)"
proof (induction t arbitrary: st)
  case Null
  then show ?case by simp
next
  case (Leaf a k v)
  then show ?case by auto
next
  case (Branch a p m l r)
  from Branch.prems have l: "l \<noteq> Null"
    and go: "go_to_next_leaf l (Branch a p m l r # st) = Inr (st', lf)"
    by (simp_all split: if_splits)
  from Branch.IH(1) [OF go] l show ?case
    by (auto simp: weight_def stack_full_def)
qed

lemma go_to_next_leaf_full:
  "full t \<Longrightarrow> t \<noteq> Null \<Longrightarrow> \<exists>st' lf. go_to_next_leaf t st = Inr (st', lf)"
  by (induction t arbitrary: st) auto

lemma count_to_end_succeeds:
  "count_to_end (st, lf) = Inr c \<Longrightarrow> lf \<noteq> Null \<Longrightarrow> stack_full st \<and> c = Suc (weight st)"
proof (induction "(st, lf)" arbitrary: st lf c rule: count_to_end.induct)
  case (1 m_stack m_leaf)
  show ?case
  proof (cases m_stack)
    case Nil
    with "1.prems" show ?thesis by (simp add: stack_full_def weight_def)
  next
    case (Cons branch rest)
    from "1.prems" Cons obtain it s where go: "go_to_next_leaf (right_tree branch) rest = Inr it"
      and cnt: "count_to_end it = Inr s" and c: "c = Suc s"
      by (auto split: sum.splits)
    obtain st' lf' where it: "it = (st', lf')" by (cases it)
    from go_to_next_leaf_succeeds [OF go [unfolded it]]
    have g: "lf' \<noteq> Null" "right_tree branch \<noteq> Null"
      "leaves (right_tree branch) + weight rest = Suc (weight st')"
      "stack_full st' \<longleftrightarrow> full (right_tree branch) \<and> stack_full rest"
      by simp_all
    from "1.hyps" [OF "1.prems"(2) Cons go [unfolded it] cnt [unfolded it] g(1)]
    have "stack_full st'" "s = Suc (weight st')" by simp_all
    with g c Cons show ?thesis by (simp add: stack_full_def weight_def)
  qed
qed

lemma count_to_end_full:
  "stack_full st \<Longrightarrow> lf \<noteq> Null \<Longrightarrow> count_to_end (st, lf) = Inr (Suc (weight st))"
proof (induction "(st, lf)" arbitrary: st lf rule: count_to_end.induct)
  case (1 m_stack m_leaf)
  show ?case
  proof (cases m_stack)
    case Nil
    with "1.prems" show ?thesis by (simp add: weight_def)
  next
    case (Cons branch rest)
    from "1.prems"(1) Cons have fr: "full (right_tree branch)" "right_tree branch \<noteq> Null"
      and sr: "stack_full rest"
      by (simp_all add: stack_full_def)
    from go_to_next_leaf_full [OF fr] obtain st' lf'
      where go: "go_to_next_leaf (right_tree branch) rest = Inr (st', lf')" by blast
    from go_to_next_leaf_succeeds [OF go] fr sr
    have g: "lf' \<noteq> Null" "leaves (right_tree branch) + weight rest = Suc (weight st')"
      "stack_full st'"
      by simp_all
    from "1.hyps" [OF "1.prems"(2) Cons go g(3) g(1)]
    have "count_to_end (st', lf') = Inr (Suc (weight st'))" .
    with go g(2) "1.prems"(2) Cons show ?thesis by (simp add: weight_def)
  qed
qed

lemma size'_iff: "size' t = Inr c \<longleftrightarrow> full t \<and> c = leaves t"
proof (cases "t = Null")
  case True
  then show ?thesis by (auto simp: size'_def iterator_begin_def)
next
  case False
  show ?thesis
  proof
    assume "size' t = Inr c"
    with False obtain st lf where go: "go_to_next_leaf t [] = Inr (st, lf)"
      and cnt: "count_to_end (st, lf) = Inr c"
      by (auto simp: size'_def iterator_begin_def split: sum.splits)
    from go_to_next_leaf_succeeds [OF go]
    have g: "lf \<noteq> Null" "leaves t = Suc (weight st)" "stack_full st \<longleftrightarrow> full t"
      by (simp_all add: weight_def stack_full_def)
    from count_to_end_succeeds [OF cnt g(1)] g show "full t \<and> c = leaves t"
      by (simp add: weight_def)
  next
    assume a: "full t \<and> c = leaves t"
    with False go_to_next_leaf_full [of t "[]"] obtain st lf
      where go: "go_to_next_leaf t [] = Inr (st, lf)" by blast
    from go_to_next_leaf_succeeds [OF go] a
    have g: "lf \<noteq> Null" "leaves t = Suc (weight st)" "stack_full st"
      by (simp_all add: weight_def stack_full_def)
    from count_to_end_full [OF g(3) g(1)] go g(2) a False show "size' t = Inr c"
      by (simp add: size'_def iterator_begin_def weight_def)
  qed
qed

text \<open>
  C6.  Let \<open>m\<close> be a well-formed map (\<open>prefix_inv\<close>) in a well-formed heap (\<open>addr_ok\<close>)
  and \<open>operation\<close> a function that sends \<open>m.at(k)\<close> to a default value.  After
  \<open>m.update(operation, k)\<close>, \<open>at(k)\<close> is the default value and no leaf holds the key
  \<open>k\<close>; if \<open>size()\<close> returned \<open>c\<close> before, it returns some \<open>c' \<le> c\<close> after; every
  value stored in a leaf was stored before, so no leaf stores a default value unless one
  did before.
\<close>

theorem update_elides_default:
  assumes "prefix_inv m" and "addr_ok n m"
    and "is_default_value V (operation (at' V k m))"
  shows "at' V k (fst (PatriciaTreeMap_update V operation k m n)) = default_value V
    \<and> k \<notin> leaf_keys (fst (PatriciaTreeMap_update V operation k m n))
    \<and> (\<forall>c. size' m = Inr c \<longrightarrow>
          (\<exists>c'\<le>c. size' (fst (PatriciaTreeMap_update V operation k m n)) = Inr c'))
    \<and> leaf_values (fst (PatriciaTreeMap_update V operation k m n)) \<subseteq> leaf_values m
    \<and> ((\<forall>v\<in>leaf_values m. \<not> is_default_value V v) \<longrightarrow>
        (\<forall>v\<in>leaf_values (fst (PatriciaTreeMap_update V operation k m n)).
           \<not> is_default_value V v))"
proof -
  obtain m' n' where u: "update V (\<lambda>x y. operation x) k (default_value V) m n = (m', n')"
    by (cases "update V (\<lambda>x y. operation x) k (default_value V) m n")
  then have m': "fst (PatriciaTreeMap_update V operation k m n) = m'"
    by (simp add: PatriciaTreeMap_update_def)
  from update_to_default [OF assms u]
  have none: "find_value k m' = None" and sh: "shrinks m m'" by simp_all
  from sh have sub: "leaf_values m' \<subseteq> leaf_values m" and le: "leaves m' \<le> leaves m"
    and fl: "full m \<longrightarrow> full m'" and pi: "prefix_inv m'"
    by (simp_all add: shrinks_def)
  from none have "at' V k m' = default_value V" by (simp add: at'_def)
  moreover from find_value_of_key [OF pi] none have "k \<notin> leaf_keys m'" by blast
  moreover have "\<forall>c. size' m = Inr c \<longrightarrow> (\<exists>c'\<le>c. size' m' = Inr c')"
    using le fl by (auto simp: size'_iff)
  moreover from sub have "(\<forall>v\<in>leaf_values m. \<not> is_default_value V v) \<longrightarrow>
        (\<forall>v\<in>leaf_values m'. \<not> is_default_value V v)" by blast
  ultimately show ?thesis using sub unfolding m' by simp
qed

theorem update_elides_default_witness:
  "prefix_inv (Branch 4 0 1 (Leaf 1 0 (1::int)) (Leaf 3 (1::8 word) 1))
   \<and> addr_ok 5 (Branch 4 0 1 (Leaf 1 0 (1::int)) (Leaf 3 (1::8 word) 1))
   \<and> is_default_value (SimpleValue (0::int))
        ((\<lambda>x. x - 1) (at' (SimpleValue 0) 0 (Branch 4 0 1 (Leaf 1 0 1) (Leaf 3 (1::8 word) 1))))
   \<and> PatriciaTreeMap_update (SimpleValue (0::int)) (\<lambda>x. x - 1) 0
        (Branch 4 0 1 (Leaf 1 0 1) (Leaf 3 (1::8 word) 1)) 5 = (Leaf 3 1 1, 5)
   \<and> at' (SimpleValue (0::int)) 0 (Leaf 3 (1::8 word) 1) = default_value (SimpleValue 0)
   \<and> 0 \<notin> leaf_keys (Leaf 3 (1::8 word) (1::int))
   \<and> size' (Branch 4 0 1 (Leaf 1 0 (1::int)) (Leaf 3 (1::8 word) 1)) = Inr 2
   \<and> (\<exists>c'\<le>2. size' (Leaf 3 (1::8 word) (1::int)) = Inr c')
   \<and> leaf_values (Leaf 3 (1::8 word) (1::int))
        \<subseteq> leaf_values (Branch 4 0 1 (Leaf 1 0 (1::int)) (Leaf 3 (1::8 word) 1))"
proof -
  let ?m = "Branch 4 0 1 (Leaf 1 0 (1::int)) (Leaf 3 (1::8 word) 1)"
  let ?V = "SimpleValue (0::int)"
  let ?f = "\<lambda>x::int. x - 1"
  have pi: "prefix_inv ?m" by (simp add: match_prefix_def mask'_def is_zero_bit_def)
  have ao: "addr_ok 5 ?m" by simp
  have at0: "at' ?V 0 ?m = 1" by (simp add: at'_def is_zero_bit_def)
  have dv: "is_default_value ?V (?f (at' ?V 0 ?m))"
    unfolding at0 by (simp add: SimpleValue_def)
  have up: "PatriciaTreeMap_update ?V ?f 0 ?m 5 = (Leaf 3 1 1, 5)"
    by (simp add: PatriciaTreeMap_update_def pt_eval)
  have sz: "size' ?m = Inr 2" by (simp add: size'_def iterator_begin_def)
  note inst = update_elides_default [of ?m 5 ?V ?f 0, OF pi ao dv, unfolded up fst_conv]
  from inst have c1: "at' ?V 0 (Leaf 3 (1::8 word) 1) = default_value ?V" by (rule conjunct1)
  from inst have c2: "0 \<notin> leaf_keys (Leaf 3 (1::8 word) (1::int))" by blast
  from inst sz have c3: "\<exists>c'\<le>2. size' (Leaf 3 (1::8 word) (1::int)) = Inr c'" by blast
  from inst have c4: "leaf_values (Leaf 3 (1::8 word) (1::int)) \<subseteq> leaf_values ?m" by blast
  from pi ao dv up c1 c2 sz c3 c4 show ?thesis by (intro conjI)
qed

end
